theory Spec2Isabelle
  imports Main "HOL-Library.Word"
begin

unbundle bit_operations_syntax

section \<open>The ramjam sparse RAM disk: data model\<close>

text \<open>
  The development embeds the two variants of the demand-paged RAM disk,
  \<^verbatim>\<open>block_driver/blk_modern.c\<close> (request based, \<open>ramjam_queue_rq\<close>,
  \<open>ramjam_vma_fault\<close>, \<open>ramjam_mmap\<close>) and \<^verbatim>\<open>block_driver/blk_bio.c\<close>
  (bio based, \<open>ramjam_submit_bio\<close>, \<open>ramjam_vm_fault\<close>, \<open>rramjam_mmap\<close>).
  Both keep one array of page pointers, \<open>ramjam_dev.pages\<close>, of \<open>ramjam_pages\<close> slots.

  Integers have the widths of the C code on a 64-bit kernel: \<open>sector_t\<close> and
  \<open>unsigned long\<close> are \<open>64 word\<close>, \<open>uint32_t\<close> and \<open>unsigned int\<close> are \<open>32 word\<close>.
\<close>

type_synonym byte = "8 word"

text \<open>A \<open>struct page *\<close> is the number of a page frame; \<open>NULL\<close> is \<open>None\<close>.\<close>

type_synonym frame = nat

text \<open>The bytes reachable from the start of a page, by offset.\<close>

type_synonym page_bytes = "nat \<Rightarrow> byte"

text \<open>
  Modelled from the spec: \<open>SECTOR_SHIFT\<close> and \<open>PAGE_SHIFT\<close> come from the kernel
  headers, which are not part of the sources; the specification gives a sector of 512
  bytes and a page of 4096 bytes.
\<close>

definition SECTOR_SHIFT :: nat where
  "SECTOR_SHIFT = 9"

definition PAGE_SHIFT :: nat where
  "PAGE_SHIFT = 12"

definition PAGE_SIZE :: nat where
  "PAGE_SIZE = 2 ^ PAGE_SHIFT"

text \<open>
  Two things the C code can do are undefined behaviour: indexing \<open>pages\<close> outside the
  slots \<open>vcalloc\<close> gave it, and a \<open>memcpy\<close> that runs past the end of a page of the
  store. The model makes each a value, so that an execution which does neither
  returns \<open>Inr\<close>.
\<close>

datatype crash = TableOutOfBounds | PageOverrun

datatype data_dir = READ | WRITE

datatype blk_status_t = BLK_STS_OK | BLK_STS_IOERR

text \<open>\<open>VM_FAULT_NONE\<close> stands for the return value \<open>0\<close> of a fault handler.\<close>

datatype vm_fault_t = VM_FAULT_NONE | VM_FAULT_SIGBUS | VM_FAULT_OOM

record bio_vec =
  bv_page :: nat
  bv_offset :: "32 word"
  bv_len :: "32 word"

text \<open>
  The buffers of a transfer are pages of the caller. They live in a memory of their
  own, indexed by \<open>bv_page\<close>, so a buffer is never a page of the store.
\<close>

type_synonym bufmem = "nat \<Rightarrow> page_bytes"

record request =
  rq_pos :: "64 word"
  rq_data_dir :: data_dir
  rq_segments :: "bio_vec list"

record bio =
  bi_sector :: "64 word"
  bio_data_dir :: data_dir
  bi_io_vec :: "bio_vec list"
  bi_status :: blk_status_t

record vm_fault =
  vmf_pgoff :: "64 word"
  vmf_page :: "frame option"

datatype vm_ops = ramjam_vm_ops

record vm_area_struct =
  vm_start :: "64 word"
  vm_end :: "64 word"
  vm_pgoff :: "64 word"
  vm_ops :: "vm_ops option"
  vm_private_data :: bool

text \<open>
  The state of the driver: the module parameter \<open>ramjam_pages\<close>, the table
  \<open>ramjam_dev.pages\<close> with the number of slots it was allocated with, and the part of
  the kernel the driver acts on: the contents and use counts of page frames and the
  page allocator. The allocator hands out frame \<open>next_frame\<close>; \<open>alloc_plan\<close> lists
  the outcomes of the coming calls of \<open>alloc_page\<close> (\<open>False\<close>: the call returns
  \<open>NULL\<close>), and every call after the plan is used up succeeds.
\<close>

record general_ramjam =
  ramjam_pages :: "32 word"
  pages_len :: nat
  pages :: "nat \<Rightarrow> frame option"
  mem :: "frame \<Rightarrow> page_bytes"
  refcnt :: "frame \<Rightarrow> nat"
  next_frame :: frame
  alloc_plan :: "bool list"

section \<open>Kernel primitives\<close>

definition memcpy :: "page_bytes \<Rightarrow> nat \<Rightarrow> page_bytes \<Rightarrow> nat \<Rightarrow> nat \<Rightarrow> page_bytes" where
  "memcpy dst d src so n = (\<lambda>i. if d \<le> i \<and> i < d + n then src (so + (i - d)) else dst i)"

definition memzero_page :: "page_bytes \<Rightarrow> nat \<Rightarrow> nat \<Rightarrow> page_bytes" where
  "memzero_page dst d n = (\<lambda>i. if d \<le> i \<and> i < d + n then 0 else dst i)"

text \<open>\<open>alloc_page(GFP_KERNEL | __GFP_ZERO)\<close>: a fresh zeroed frame with use count 1, or \<open>NULL\<close>.\<close>

definition alloc_page :: "general_ramjam \<Rightarrow> frame option \<times> general_ramjam" where
  "alloc_page s =
     (let granted = (case alloc_plan s of [] \<Rightarrow> True | ok # _ \<Rightarrow> ok);
          s1 = s\<lparr>alloc_plan := tl (alloc_plan s)\<rparr>
      in if granted
         then (Some (next_frame s),
               s1\<lparr>mem := (mem s)(next_frame s := (\<lambda>_. 0)),
                  refcnt := (refcnt s)(next_frame s := 1),
                  next_frame := Suc (next_frame s)\<rparr>)
         else (None, s1))"

definition get_page :: "general_ramjam \<Rightarrow> frame \<Rightarrow> general_ramjam" where
  "get_page s p = s\<lparr>refcnt := (refcnt s)(p := Suc (refcnt s p))\<rparr>"

text \<open>Reading and writing slot \<open>i\<close> of \<open>ramjam_dev.pages\<close>.\<close>

definition pages_read :: "general_ramjam \<Rightarrow> nat \<Rightarrow> crash + frame option" where
  "pages_read s i = (if i < pages_len s then Inr (pages s i) else Inl TableOutOfBounds)"

definition pages_write :: "general_ramjam \<Rightarrow> nat \<Rightarrow> frame option \<Rightarrow> crash + general_ramjam" where
  "pages_write s i p =
     (if i < pages_len s then Inr (s\<lparr>pages := (pages s)(i := p)\<rparr>) else Inl TableOutOfBounds)"

text \<open>Copies between a page of the store and a buffer; the store side must stay in its page.\<close>

definition copy_to_page ::
  "general_ramjam \<Rightarrow> frame \<Rightarrow> nat \<Rightarrow> page_bytes \<Rightarrow> nat \<Rightarrow> nat \<Rightarrow> crash + general_ramjam" where
  "copy_to_page s p voff src so n =
     (if voff + n \<le> PAGE_SIZE
      then Inr (s\<lparr>mem := (mem s)(p := memcpy (mem s p) voff src so n)\<rparr>)
      else Inl PageOverrun)"

definition copy_from_page ::
  "general_ramjam \<Rightarrow> frame \<Rightarrow> nat \<Rightarrow> bufmem \<Rightarrow> bio_vec \<Rightarrow> crash + bufmem" where
  "copy_from_page s p voff b bvec =
     (if voff + unat (bv_len bvec) \<le> PAGE_SIZE
      then Inr (b(bv_page bvec :=
                  memcpy (b (bv_page bvec)) (unat (bv_offset bvec)) (mem s p) voff (unat (bv_len bvec))))
      else Inl PageOverrun)"

definition zero_segment :: "bufmem \<Rightarrow> bio_vec \<Rightarrow> bufmem" where
  "zero_segment b bvec =
     b(bv_page bvec := memzero_page (b (bv_page bvec)) (unat (bv_offset bvec)) (unat (bv_len bvec)))"

section \<open>blk_modern.c\<close>

definition ramjam_get_page ::
  "general_ramjam \<Rightarrow> 64 word \<Rightarrow> bool \<Rightarrow> crash + (frame option \<times> general_ramjam)" where
  "ramjam_get_page s pgoff allocate =
     (if ucast (ramjam_pages s) \<le> pgoff then Inr (None, s)
      else case pages_read s (unat pgoff) of
        Inl e \<Rightarrow> Inl e
      | Inr cur \<Rightarrow>
          (case (if cur = None \<and> allocate
                 then (case alloc_page s of (p, s1) \<Rightarrow> pages_write s1 (unat pgoff) p)
                 else Inr s) of
             Inl e \<Rightarrow> Inl e
           | Inr s2 \<Rightarrow>
               (case pages_read s2 (unat pgoff) of
                  Inl e \<Rightarrow> Inl e
                | Inr r \<Rightarrow> Inr (r, s2))))"

text \<open>The body of \<open>rq_for_each_segment\<close>, without the final \<open>pos += bvec.bv_len\<close>.\<close>

definition queue_rq_segment ::
  "data_dir \<Rightarrow> bio_vec \<Rightarrow> general_ramjam \<Rightarrow> bufmem \<Rightarrow> 32 word \<Rightarrow> crash + (general_ramjam \<times> bufmem)" where
  "queue_rq_segment dir bvec s b pos =
     (let pgoff = (ucast (drop_bit PAGE_SHIFT (pos + bv_offset bvec)) :: 64 word)
      in case ramjam_get_page s pgoff (dir = WRITE) of
           Inl e \<Rightarrow> Inl e
         | Inr (page, s1) \<Rightarrow>
             (case page of
                Some p \<Rightarrow>
                  (let voff = unat pos mod PAGE_SIZE
                   in if dir = WRITE
                      then (case copy_to_page s1 p voff (b (bv_page bvec))
                                   (unat (bv_offset bvec)) (unat (bv_len bvec)) of
                              Inl e \<Rightarrow> Inl e
                            | Inr s2 \<Rightarrow> Inr (s2, b))
                      else (case copy_from_page s1 p voff b bvec of
                              Inl e \<Rightarrow> Inl e
                            | Inr b2 \<Rightarrow> Inr (s1, b2)))
              | None \<Rightarrow>
                  if dir = READ then Inr (s1, zero_segment b bvec) else Inr (s1, b)))"

fun queue_rq_loop ::
  "data_dir \<Rightarrow> bio_vec list \<Rightarrow> general_ramjam \<Rightarrow> bufmem \<Rightarrow> 32 word \<Rightarrow> crash + (general_ramjam \<times> bufmem)" where
  "queue_rq_loop dir [] s b pos = Inr (s, b)"
| "queue_rq_loop dir (bvec # rest) s b pos =
     (case queue_rq_segment dir bvec s b pos of
        Inl e \<Rightarrow> Inl e
      | Inr (s1, b1) \<Rightarrow> queue_rq_loop dir rest s1 b1 (pos + bv_len bvec))"

definition ramjam_queue_rq ::
  "general_ramjam \<Rightarrow> bufmem \<Rightarrow> request \<Rightarrow> crash + (general_ramjam \<times> bufmem \<times> blk_status_t)" where
  "ramjam_queue_rq s b rq =
     (let pos = (ucast (push_bit SECTOR_SHIFT (rq_pos rq)) :: 32 word)
      in case queue_rq_loop (rq_data_dir rq) (rq_segments rq) s b pos of
           Inl e \<Rightarrow> Inl e
         | Inr (s1, b1) \<Rightarrow> Inr (s1, b1, BLK_STS_OK))"

definition ramjam_vma_fault ::
  "general_ramjam \<Rightarrow> vm_fault \<Rightarrow> crash + (general_ramjam \<times> vm_fault \<times> vm_fault_t)" where
  "ramjam_vma_fault s vmf =
     (case ramjam_get_page s (vmf_pgoff vmf) True of
        Inl e \<Rightarrow> Inl e
      | Inr (page, s1) \<Rightarrow>
          (case page of
             None \<Rightarrow> Inr (s1, vmf, VM_FAULT_SIGBUS)
           | Some p \<Rightarrow> Inr (get_page s1 p, vmf\<lparr>vmf_page := Some p\<rparr>, VM_FAULT_NONE)))"

definition ramjam_mmap ::
  "general_ramjam \<Rightarrow> vm_area_struct \<Rightarrow> general_ramjam \<times> vm_area_struct \<times> int" where
  "ramjam_mmap s vma = (s, vma\<lparr>vm_ops := Some ramjam_vm_ops, vm_private_data := True\<rparr>, 0)"

section \<open>blk_bio.c\<close>

definition submit_bio_segment ::
  "data_dir \<Rightarrow> bio_vec \<Rightarrow> general_ramjam \<Rightarrow> bufmem \<Rightarrow> 64 word \<Rightarrow> crash + (general_ramjam \<times> bufmem)" where
  "submit_bio_segment dir bvec s b sector =
     (let pg_idx = (ucast (drop_bit PAGE_SHIFT (push_bit SECTOR_SHIFT sector)) :: 32 word)
      in case (if pg_idx < ramjam_pages s then pages_read s (unat pg_idx) else Inr None) of
           Inl e \<Rightarrow> Inl e
         | Inr page0 \<Rightarrow>
             (case (if page0 = None \<and> dir = WRITE \<and> pg_idx < ramjam_pages s
                    then (case alloc_page s of
                            (p, s1) \<Rightarrow>
                              (case pages_write s1 (unat pg_idx) p of
                                 Inl e \<Rightarrow> Inl e
                               | Inr s2 \<Rightarrow> Inr (p, s2)))
                    else Inr (page0, s)) of
                Inl e \<Rightarrow> Inl e
              | Inr (page, s1) \<Rightarrow>
                  (case page of
                     Some p \<Rightarrow>
                       (let voff = unat (bv_offset bvec) mod PAGE_SIZE
                        in if dir = WRITE
                           then (case copy_to_page s1 p voff (b (bv_page bvec))
                                        (unat (bv_offset bvec)) (unat (bv_len bvec)) of
                                   Inl e \<Rightarrow> Inl e
                                 | Inr s2 \<Rightarrow> Inr (s2, b))
                           else (case copy_from_page s1 p voff b bvec of
                                   Inl e \<Rightarrow> Inl e
                                 | Inr b2 \<Rightarrow> Inr (s1, b2)))
                   | None \<Rightarrow>
                       if dir = READ then Inr (s1, zero_segment b bvec) else Inr (s1, b))))"

fun submit_bio_loop ::
  "data_dir \<Rightarrow> bio_vec list \<Rightarrow> general_ramjam \<Rightarrow> bufmem \<Rightarrow> 64 word \<Rightarrow> crash + (general_ramjam \<times> bufmem)" where
  "submit_bio_loop dir [] s b sector = Inr (s, b)"
| "submit_bio_loop dir (bvec # rest) s b sector =
     (case submit_bio_segment dir bvec s b sector of
        Inl e \<Rightarrow> Inl e
      | Inr (s1, b1) \<Rightarrow>
          submit_bio_loop dir rest s1 b1 (sector + ucast (drop_bit SECTOR_SHIFT (bv_len bvec))))"

text \<open>\<open>bio_endio\<close> completes the bio with the status it carries; the function never sets it.\<close>

definition ramjam_submit_bio ::
  "general_ramjam \<Rightarrow> bufmem \<Rightarrow> bio \<Rightarrow> crash + (general_ramjam \<times> bufmem \<times> blk_status_t)" where
  "ramjam_submit_bio s b bio =
     (case submit_bio_loop (bio_data_dir bio) (bi_io_vec bio) s b (bi_sector bio) of
        Inl e \<Rightarrow> Inl e
      | Inr (s1, b1) \<Rightarrow> Inr (s1, b1, bi_status bio))"

definition ramjam_vm_fault ::
  "general_ramjam \<Rightarrow> vm_fault \<Rightarrow> crash + (general_ramjam \<times> vm_fault \<times> vm_fault_t)" where
  "ramjam_vm_fault s vmf =
     (let pg_idx = (ucast (vmf_pgoff vmf) :: 32 word)
      in if ramjam_pages s \<le> pg_idx then Inr (s, vmf, VM_FAULT_SIGBUS)
         else case pages_read s (unat pg_idx) of
           Inl e \<Rightarrow> Inl e
         | Inr (Some p) \<Rightarrow> Inr (get_page s p, vmf\<lparr>vmf_page := Some p\<rparr>, VM_FAULT_NONE)
         | Inr None \<Rightarrow>
             (case alloc_page s of
                (None, s1) \<Rightarrow> Inr (s1, vmf, VM_FAULT_OOM)
              | (Some p, s1) \<Rightarrow>
                  (case pages_write s1 (unat pg_idx) (Some p) of
                     Inl e \<Rightarrow> Inl e
                   | Inr s2 \<Rightarrow> Inr (get_page s2 p, vmf\<lparr>vmf_page := Some p\<rparr>, VM_FAULT_NONE))))"

text \<open>
  The kernel's error number for an invalid argument, from a header outside the
  sources; nothing below depends on its value.
\<close>

definition EINVAL :: int where
  "EINVAL = 22"

definition rramjam_mmap ::
  "general_ramjam \<Rightarrow> vm_area_struct \<Rightarrow> general_ramjam \<times> vm_area_struct \<times> int" where
  "rramjam_mmap s vma =
     (let size = vm_end vma - vm_start vma
      in if push_bit PAGE_SHIFT (vm_pgoff vma) + size
              > push_bit PAGE_SHIFT (ucast (ramjam_pages s) :: 64 word)
         then (s, vma, - EINVAL)
         else (s, vma\<lparr>vm_ops := Some ramjam_vm_ops, vm_private_data := True\<rparr>, 0))"

section \<open>Initialisation and well-formed states\<close>

text \<open>
  The part of \<open>ramjam_init\<close> that builds the table: \<open>vcalloc(ramjam_pages, ...)\<close>
  gives \<open>ramjam_pages\<close> slots, all \<open>NULL\<close>. The arguments are the module parameter and
  the state of the kernel's memory and allocator at load time.
\<close>

definition ramjam_init ::
  "32 word \<Rightarrow> (frame \<Rightarrow> page_bytes) \<Rightarrow> frame \<Rightarrow> bool list \<Rightarrow> general_ramjam" where
  "ramjam_init n m0 f0 plan =
     \<lparr>ramjam_pages = n, pages_len = unat n, pages = (\<lambda>_. None), mem = m0,
      refcnt = (\<lambda>_. 0), next_frame = f0, alloc_plan = plan\<rparr>"

text \<open>
  The table has the slots \<open>ramjam_init\<close> gave it: the module parameter has not been
  changed since the module was loaded.
\<close>

definition table_ok :: "general_ramjam \<Rightarrow> bool" where
  "table_ok s \<longleftrightarrow> pages_len s = unat (ramjam_pages s)"

section \<open>Auxiliary notions for the proofs\<close>

text \<open>The page index \<open>ramjam_queue_rq\<close> computes for a segment (\<open>blk_modern.c\<close>, line 72).\<close>

definition rq_pgoff :: "32 word \<Rightarrow> bio_vec \<Rightarrow> 64 word" where
  "rq_pgoff pos bvec = ucast (drop_bit PAGE_SHIFT (pos + bv_offset bvec))"

text \<open>The page index \<open>ramjam_submit_bio\<close> computes for a segment (\<open>blk_bio.c\<close>, line 46).\<close>

definition bio_pg_idx :: "64 word \<Rightarrow> 32 word" where
  "bio_pg_idx sector = ucast (drop_bit PAGE_SHIFT (push_bit SECTOR_SHIFT sector))"

text \<open>
  What both front ends do with a segment once they hold the page pointer: copy to or
  from the page at offset \<open>voff\<close>, or zero the buffer when a read finds no page.
\<close>

definition segment_copy ::
  "data_dir \<Rightarrow> frame option \<Rightarrow> general_ramjam \<Rightarrow> bufmem \<Rightarrow> bio_vec \<Rightarrow> nat \<Rightarrow> crash + (general_ramjam \<times> bufmem)" where
  "segment_copy dir page s1 b bvec voff =
     (case page of
        Some p \<Rightarrow>
          (if dir = WRITE
           then (case copy_to_page s1 p voff (b (bv_page bvec))
                        (unat (bv_offset bvec)) (unat (bv_len bvec)) of
                   Inl e \<Rightarrow> Inl e | Inr s2 \<Rightarrow> Inr (s2, b))
           else (case copy_from_page s1 p voff b bvec of
                   Inl e \<Rightarrow> Inl e | Inr b2 \<Rightarrow> Inr (s1, b2)))
      | None \<Rightarrow> if dir = READ then Inr (s1, zero_segment b bvec) else Inr (s1, b))"

text \<open>
  \<open>table_grows s s1\<close>: from \<open>s\<close> to \<open>s1\<close> the table keeps its size, every slot that
  held a page still holds the same page, and a slot that holds a page now either held
  it before or lies inside the table.
\<close>

definition table_grows :: "general_ramjam \<Rightarrow> general_ramjam \<Rightarrow> bool" where
  "table_grows s s1 \<longleftrightarrow>
     ramjam_pages s1 = ramjam_pages s \<and> pages_len s1 = pages_len s \<and>
     (\<forall>i. pages s i \<noteq> None \<longrightarrow> pages s1 i = pages s i) \<and>
     (\<forall>i. pages s1 i \<noteq> None \<longrightarrow> pages s i \<noteq> None \<or> i < pages_len s)"

text \<open>The allocator will grant the next request.\<close>

definition alloc_granted :: "general_ramjam \<Rightarrow> bool" where
  "alloc_granted s \<longleftrightarrow> (case alloc_plan s of [] \<Rightarrow> True | ok # _ \<Rightarrow> ok)"

text \<open>
  Every page of the table lives in a frame the allocator has already handed out, and no
  two slots share a frame.
\<close>

definition frames_ok :: "general_ramjam \<Rightarrow> bool" where
  "frames_ok s \<longleftrightarrow>
     (\<forall>i p. pages s i = Some p \<longrightarrow> p < next_frame s) \<and>
     (\<forall>i j p. pages s i = Some p \<and> pages s j = Some p \<longrightarrow> i = j)"

text \<open>
  \<open>slot_kept i s s1\<close>: slot \<open>i\<close> of the table is the same in \<open>s1\<close> as in \<open>s\<close>, and if it
  holds a page, the contents of that page are the same.
\<close>

definition slot_kept :: "nat \<Rightarrow> general_ramjam \<Rightarrow> general_ramjam \<Rightarrow> bool" where
  "slot_kept i s s1 \<longleftrightarrow>
     pages s1 i = pages s i \<and> (\<forall>p. pages s i = Some p \<longrightarrow> mem s1 p = mem s p)"

text \<open>No segment of the rest of a transfer is resolved to slot \<open>i\<close>.\<close>

fun rq_avoids :: "nat \<Rightarrow> 32 word \<Rightarrow> bio_vec list \<Rightarrow> bool" where
  "rq_avoids i pos [] = True"
| "rq_avoids i pos (bvec # rest) =
     (unat (rq_pgoff pos bvec) \<noteq> i \<and> rq_avoids i (pos + bv_len bvec) rest)"

fun bio_avoids :: "nat \<Rightarrow> 64 word \<Rightarrow> bio_vec list \<Rightarrow> bool" where
  "bio_avoids i sector [] = True"
| "bio_avoids i sector (bvec # rest) =
     (unat (bio_pg_idx sector) \<noteq> i
      \<and> bio_avoids i (sector + ucast (drop_bit SECTOR_SHIFT (bv_len bvec))) rest)"

section \<open>Sequences of operations\<close>

text \<open>
  An operation of either variant, and a run of operations one after the other; a run
  stops at the first operation that crashes. The status of a transfer and the result of
  a fault do not influence what follows.
\<close>

datatype driver_op = Queue_rq request | Submit_bio bio | Vma_fault vm_fault | Vm_fault vm_fault

fun driver_step :: "driver_op \<Rightarrow> general_ramjam \<Rightarrow> bufmem \<Rightarrow> crash + (general_ramjam \<times> bufmem)" where
  "driver_step (Queue_rq rq) s b =
     (case ramjam_queue_rq s b rq of Inl e \<Rightarrow> Inl e | Inr (s1, b1, st) \<Rightarrow> Inr (s1, b1))"
| "driver_step (Submit_bio bio) s b =
     (case ramjam_submit_bio s b bio of Inl e \<Rightarrow> Inl e | Inr (s1, b1, st) \<Rightarrow> Inr (s1, b1))"
| "driver_step (Vma_fault vmf) s b =
     (case ramjam_vma_fault s vmf of Inl e \<Rightarrow> Inl e | Inr (s1, vmf1, r) \<Rightarrow> Inr (s1, b))"
| "driver_step (Vm_fault vmf) s b =
     (case ramjam_vm_fault s vmf of Inl e \<Rightarrow> Inl e | Inr (s1, vmf1, r) \<Rightarrow> Inr (s1, b))"

fun driver_run :: "driver_op list \<Rightarrow> general_ramjam \<Rightarrow> bufmem \<Rightarrow> crash + (general_ramjam \<times> bufmem)" where
  "driver_run [] s b = Inr (s, b)"
| "driver_run (x # xs) s b =
     (case driver_step x s b of Inl e \<Rightarrow> Inl e | Inr (s1, b1) \<Rightarrow> driver_run xs s1 b1)"

text \<open>The number of slots of the table that hold a page.\<close>

definition allocated_count :: "general_ramjam \<Rightarrow> nat" where
  "allocated_count s = length (filter (\<lambda>i. pages s i \<noteq> None) [0..<pages_len s])"

text \<open>Two transfers in a row, and a transfer followed by a fault.\<close>

definition rq_then ::
  "general_ramjam \<Rightarrow> bufmem \<Rightarrow> request \<Rightarrow> request \<Rightarrow> crash + (general_ramjam \<times> bufmem \<times> blk_status_t)" where
  "rq_then s b rq1 rq2 =
     (case ramjam_queue_rq s b rq1 of Inl e \<Rightarrow> Inl e | Inr (s1, b1, st) \<Rightarrow> ramjam_queue_rq s1 b1 rq2)"

definition bio_then ::
  "general_ramjam \<Rightarrow> bufmem \<Rightarrow> bio \<Rightarrow> bio \<Rightarrow> crash + (general_ramjam \<times> bufmem \<times> blk_status_t)" where
  "bio_then s b bio1 bio2 =
     (case ramjam_submit_bio s b bio1 of Inl e \<Rightarrow> Inl e | Inr (s1, b1, st) \<Rightarrow> ramjam_submit_bio s1 b1 bio2)"

definition rq_then_fault ::
  "general_ramjam \<Rightarrow> bufmem \<Rightarrow> request \<Rightarrow> vm_fault \<Rightarrow> crash + (general_ramjam \<times> vm_fault \<times> vm_fault_t)" where
  "rq_then_fault s b rq vmf =
     (case ramjam_queue_rq s b rq of Inl e \<Rightarrow> Inl e | Inr (s1, b1, st) \<Rightarrow> ramjam_vma_fault s1 vmf)"

text \<open>A transfer lies wholly beyond the table: every segment's page index is out of range.\<close>

fun rq_beyond :: "general_ramjam \<Rightarrow> 32 word \<Rightarrow> bio_vec list \<Rightarrow> bool" where
  "rq_beyond s pos [] = True"
| "rq_beyond s pos (bvec # rest) =
     (ucast (ramjam_pages s) \<le> rq_pgoff pos bvec \<and> rq_beyond s (pos + bv_len bvec) rest)"

fun bio_beyond :: "general_ramjam \<Rightarrow> 64 word \<Rightarrow> bio_vec list \<Rightarrow> bool" where
  "bio_beyond s sector [] = True"
| "bio_beyond s sector (bvec # rest) =
     (ramjam_pages s \<le> bio_pg_idx sector
      \<and> bio_beyond s (sector + ucast (drop_bit SECTOR_SHIFT (bv_len bvec))) rest)"

section \<open>Observers\<close>

text \<open>
  What can be seen of the outcome of a transfer (its status, a slot of the table, a byte
  of a buffer) and of a fault (its return value, and the byte a consumer sees at offset
  \<open>off\<close> of the page the fault handed out). A crash shows as \<open>None\<close>.
\<close>

definition result_status ::
  "crash + (general_ramjam \<times> bufmem \<times> blk_status_t) \<Rightarrow> blk_status_t option" where
  "result_status r = (case r of Inl e \<Rightarrow> None | Inr (s, b, st) \<Rightarrow> Some st)"

definition result_slot ::
  "crash + (general_ramjam \<times> bufmem \<times> blk_status_t) \<Rightarrow> nat \<Rightarrow> frame option option" where
  "result_slot r i = (case r of Inl e \<Rightarrow> None | Inr (s, b, st) \<Rightarrow> Some (pages s i))"

definition result_buf_byte ::
  "crash + (general_ramjam \<times> bufmem \<times> blk_status_t) \<Rightarrow> nat \<Rightarrow> nat \<Rightarrow> byte option" where
  "result_buf_byte r k i = (case r of Inl e \<Rightarrow> None | Inr (s, b, st) \<Rightarrow> Some (b k i))"

definition fault_return ::
  "crash + (general_ramjam \<times> vm_fault \<times> vm_fault_t) \<Rightarrow> vm_fault_t option" where
  "fault_return r = (case r of Inl e \<Rightarrow> None | Inr (s, vmf, ret) \<Rightarrow> Some ret)"

definition mapped_byte ::
  "crash + (general_ramjam \<times> vm_fault \<times> vm_fault_t) \<Rightarrow> nat \<Rightarrow> byte option" where
  "mapped_byte r off =
     (case r of
        Inl e \<Rightarrow> None
      | Inr (s, vmf, ret) \<Rightarrow> (case vmf_page vmf of None \<Rightarrow> None | Some p \<Rightarrow> Some (mem s p off)))"

section \<open>Example stores, buffers and requests\<close>

definition zero_bytes :: page_bytes where
  "zero_bytes = (\<lambda>_. 0)"

definition fill_bytes :: "byte \<Rightarrow> page_bytes" where
  "fill_bytes v = (\<lambda>_. v)"

text \<open>A freshly loaded store of \<open>n\<close> pages on a machine whose free frames start at 0.\<close>

definition fresh_store :: "32 word \<Rightarrow> bool list \<Rightarrow> general_ramjam" where
  "fresh_store n plan = ramjam_init n (\<lambda>_. zero_bytes) 0 plan"

text \<open>A store of four pages with page 1 allocated, in frame 0.\<close>

definition one_page_store :: general_ramjam where
  "one_page_store = (fresh_store 4 [])\<lparr>pages := (\<lambda>_. None)(1 := Some 0), next_frame := 1\<rparr>"

text \<open>The same store when the next allocation will fail.\<close>

definition refusing_store :: general_ramjam where
  "refusing_store = one_page_store\<lparr>alloc_plan := [False]\<rparr>"

text \<open>Caller memory: buffer page \<open>k\<close> is filled with the byte \<open>17 * (k + 1)\<close>.\<close>

definition demo_bufs :: bufmem where
  "demo_bufs = (\<lambda>k. fill_bytes (17 * (of_nat k + 1)))"

text \<open>A segment \<open>seg pg off len\<close>: \<open>len\<close> bytes at offset \<open>off\<close> of buffer page \<open>pg\<close>.\<close>

definition seg :: "nat \<Rightarrow> 32 word \<Rightarrow> 32 word \<Rightarrow> bio_vec" where
  "seg pg off len = \<lparr>bv_page = pg, bv_offset = off, bv_len = len\<rparr>"

definition mk_request :: "data_dir \<Rightarrow> 64 word \<Rightarrow> bio_vec list \<Rightarrow> request" where
  "mk_request dir sector segs = \<lparr>rq_pos = sector, rq_data_dir = dir, rq_segments = segs\<rparr>"

definition mk_bio :: "data_dir \<Rightarrow> 64 word \<Rightarrow> bio_vec list \<Rightarrow> bio" where
  "mk_bio dir sector segs =
     \<lparr>bi_sector = sector, bio_data_dir = dir, bi_io_vec = segs, bi_status = BLK_STS_OK\<rparr>"

definition mk_fault :: "64 word \<Rightarrow> vm_fault" where
  "mk_fault n = \<lparr>vmf_pgoff = n, vmf_page = None\<rparr>"

definition mk_vma :: "64 word \<Rightarrow> 64 word \<Rightarrow> 64 word \<Rightarrow> vm_area_struct" where
  "mk_vma start end_addr pgoff =
     \<lparr>vm_start = start, vm_end = end_addr, vm_pgoff = pgoff, vm_ops = None, vm_private_data = False\<rparr>"

definition demo_ops :: "driver_op list" where
  "demo_ops =
     [Queue_rq (mk_request WRITE 16 [seg 0 0 4096]),
      Vma_fault (mk_fault 3),
      Submit_bio (mk_bio WRITE 8 [seg 1 0 4096]),
      Vm_fault (mk_fault 0),
      Vm_fault (mk_fault 7),
      Queue_rq (mk_request READ 0 [seg 2 0 4096, seg 3 0 4096])]"

section \<open>Basic facts\<close>

text \<open>The equations that evaluate the driver and the examples on concrete inputs.\<close>

lemmas driver_defs = ramjam_queue_rq_def queue_rq_segment_def ramjam_get_page_def
  ramjam_submit_bio_def submit_bio_segment_def ramjam_vma_fault_def ramjam_vm_fault_def
  pages_read_def pages_write_def alloc_page_def get_page_def copy_to_page_def copy_from_page_def
  zero_segment_def PAGE_SIZE_def PAGE_SHIFT_def SECTOR_SHIFT_def Let_def

lemmas demo_defs = fresh_store_def ramjam_init_def mk_request_def mk_bio_def seg_def mk_fault_def
  demo_bufs_def fill_bytes_def zero_bytes_def

lemma unat_pages_ucast: "unat (ucast (n :: 32 word) :: 64 word) = unat n"
proof -
  have "unat n < 2 ^ 32" using unsigned_less [of n] by simp
  then have "unat n < 2 ^ 64" by simp
  then show ?thesis by (simp add: unsigned_ucast_eq take_bit_nat_eq_self)
qed

lemma in_range_modern:
  "table_ok s \<Longrightarrow> \<not> ucast (ramjam_pages s) \<le> (pgoff :: 64 word) \<Longrightarrow> unat pgoff < pages_len s"
  by (simp add: table_ok_def not_le word_less_nat_alt unat_pages_ucast)

lemma in_range_bio:
  "table_ok s \<Longrightarrow> (pg_idx :: 32 word) < ramjam_pages s \<Longrightarrow> unat pg_idx < pages_len s"
  by (simp add: table_ok_def word_less_nat_alt)

lemma alloc_page_table:
  "alloc_page s = (p, s1) \<Longrightarrow>
     ramjam_pages s1 = ramjam_pages s \<and> pages_len s1 = pages_len s \<and> pages s1 = pages s"
  by (auto simp: alloc_page_def Let_def split: if_splits)

lemma table_grows_refl: "table_grows s s"
  by (simp add: table_grows_def)

lemma table_grows_trans: "table_grows s s1 \<Longrightarrow> table_grows s1 s2 \<Longrightarrow> table_grows s s2"
  unfolding table_grows_def by metis

lemma table_grows_ok: "table_grows s s1 \<Longrightarrow> table_ok s \<Longrightarrow> table_ok s1"
  by (simp add: table_grows_def table_ok_def)

lemma alloc_page_grows: "alloc_page s = (p, s1) \<Longrightarrow> table_grows s s1"
  by (auto simp: table_grows_def dest: alloc_page_table)

lemma pages_write_grows:
  "pages_write s i p = Inr s1 \<Longrightarrow> pages s i = None \<Longrightarrow> table_grows s s1"
  by (auto simp: pages_write_def table_grows_def split: if_splits)

lemma copy_to_page_grows: "copy_to_page s p voff src so n = Inr s1 \<Longrightarrow> table_grows s s1"
  by (auto simp: copy_to_page_def table_grows_def split: if_splits)

lemma copy_to_page_crash: "copy_to_page s p voff src so n = Inl e \<Longrightarrow> e = PageOverrun"
  by (auto simp: copy_to_page_def split: if_splits)

lemma copy_from_page_crash: "copy_from_page s p voff b bvec = Inl e \<Longrightarrow> e = PageOverrun"
  by (auto simp: copy_from_page_def split: if_splits)

lemma get_page_grows: "table_grows s (get_page s p)"
  by (simp add: get_page_def table_grows_def)

lemma ramjam_get_page_out:
  "ucast (ramjam_pages s) \<le> pgoff \<Longrightarrow> ramjam_get_page s pgoff a = Inr (None, s)"
  by (simp add: ramjam_get_page_def)

lemma ramjam_get_page_keep:
  "table_ok s \<Longrightarrow> \<not> ucast (ramjam_pages s) \<le> pgoff \<Longrightarrow> pages s (unat pgoff) \<noteq> None \<or> \<not> a \<Longrightarrow>
     ramjam_get_page s pgoff a = Inr (pages s (unat pgoff), s)"
  using in_range_modern [of s pgoff]
  by (auto simp add: ramjam_get_page_def pages_read_def)

lemma ramjam_get_page_alloc:
  "table_ok s \<Longrightarrow> \<not> ucast (ramjam_pages s) \<le> pgoff \<Longrightarrow> pages s (unat pgoff) = None \<Longrightarrow>
     alloc_page s = (q, s1) \<Longrightarrow>
     ramjam_get_page s pgoff True = Inr (q, s1\<lparr>pages := (pages s1)(unat pgoff := q)\<rparr>)"
  using in_range_modern [of s pgoff] alloc_page_table [of s q s1]
  by (simp add: ramjam_get_page_def pages_read_def pages_write_def)

lemma pages_update_grows:
  "pages s i = None \<Longrightarrow> i < pages_len s \<Longrightarrow> table_grows s (s\<lparr>pages := (pages s)(i := q)\<rparr>)"
  by (simp add: table_grows_def)

lemma ramjam_get_page_total:
  assumes "table_ok s"
  shows "\<exists>p s1. ramjam_get_page s pgoff a = Inr (p, s1) \<and> table_grows s s1"
proof (cases "ucast (ramjam_pages s) \<le> pgoff")
  case True
  then show ?thesis by (simp add: ramjam_get_page_out table_grows_refl)
next
  case inr: False
  show ?thesis
  proof (cases "pages s (unat pgoff) \<noteq> None \<or> \<not> a")
    case True
    from ramjam_get_page_keep [OF assms inr True] show ?thesis
      by (simp add: table_grows_refl)
  next
    case False
    then have none: "pages s (unat pgoff) = None" and a: "a" by auto
    obtain q s1 where ap: "alloc_page s = (q, s1)" by (cases "alloc_page s")
    have g1: "table_grows s s1" using ap by (rule alloc_page_grows)
    have "pages s1 (unat pgoff) = None" "unat pgoff < pages_len s1"
      using alloc_page_table [OF ap] none in_range_modern [OF assms inr] by simp_all
    then have "table_grows s1 (s1\<lparr>pages := (pages s1)(unat pgoff := q)\<rparr>)"
      by (rule pages_update_grows)
    with g1 have "table_grows s (s1\<lparr>pages := (pages s1)(unat pgoff := q)\<rparr>)"
      by (rule table_grows_trans)
    with ramjam_get_page_alloc [OF assms inr none ap] a show ?thesis by simp
  qed
qed

lemma queue_rq_segment_alt:
  "queue_rq_segment dir bvec s b pos =
     (case ramjam_get_page s (rq_pgoff pos bvec) (dir = WRITE) of
        Inl e \<Rightarrow> Inl e
      | Inr (page, s1) \<Rightarrow> segment_copy dir page s1 b bvec (unat pos mod PAGE_SIZE))"
  by (simp add: queue_rq_segment_def rq_pgoff_def segment_copy_def Let_def
           split: sum.splits option.splits)

lemma ucast_pages_le: "(ucast (n :: 32 word) :: 64 word) \<le> ucast (k :: 32 word) \<longleftrightarrow> n \<le> k"
  by (simp add: word_le_nat_alt unat_pages_ucast)

lemma submit_bio_segment_alt:
  assumes "table_ok s"
  shows "submit_bio_segment dir bvec s b sector =
     (case ramjam_get_page s (ucast (bio_pg_idx sector)) (dir = WRITE) of
        Inl e \<Rightarrow> Inl e
      | Inr (page, s1) \<Rightarrow> segment_copy dir page s1 b bvec (unat (bv_offset bvec) mod PAGE_SIZE))"
proof (cases "bio_pg_idx sector < ramjam_pages s")
  case False
  then have "ucast (ramjam_pages s) \<le> (ucast (bio_pg_idx sector) :: 64 word)"
    by (simp add: ucast_pages_le)
  then show ?thesis using False
    by (simp add: ramjam_get_page_out submit_bio_segment_def bio_pg_idx_def segment_copy_def)
next
  case True
  then have inr: "\<not> ucast (ramjam_pages s) \<le> (ucast (bio_pg_idx sector) :: 64 word)"
    by (simp add: ucast_pages_le)
  have len: "unat (bio_pg_idx sector) < pages_len s" using assms True by (rule in_range_bio)
  have u: "unat (ucast (bio_pg_idx sector) :: 64 word) = unat (bio_pg_idx sector)"
    by (rule unat_pages_ucast)
  show ?thesis
  proof (cases "pages s (unat (bio_pg_idx sector)) \<noteq> None \<or> dir \<noteq> WRITE")
    case keep: True
    then have "pages s (unat (ucast (bio_pg_idx sector) :: 64 word)) \<noteq> None \<or> \<not> (dir = WRITE)"
      by (simp add: u)
    from ramjam_get_page_keep [OF assms inr this] keep True len show ?thesis
      by (auto simp: u submit_bio_segment_def bio_pg_idx_def [symmetric] segment_copy_def
            pages_read_def Let_def split: option.splits)
  next
    case False
    then have none: "pages s (unat (bio_pg_idx sector)) = None" and w: "dir = WRITE" by auto
    obtain q s1 where ap: "alloc_page s = (q, s1)" by (cases "alloc_page s")
    have none': "pages s (unat (ucast (bio_pg_idx sector) :: 64 word)) = None" using none by (simp add: u)
    from ramjam_get_page_alloc [OF assms inr none' ap] none w True len ap alloc_page_table [OF ap]
    show ?thesis
      by (auto simp: u submit_bio_segment_def bio_pg_idx_def [symmetric] segment_copy_def
            pages_read_def pages_write_def Let_def split: option.splits)
  qed
qed

lemma segment_copy_crash: "segment_copy dir page s b bvec voff = Inl e \<Longrightarrow> e = PageOverrun"
  by (auto simp: segment_copy_def split: option.splits if_splits sum.splits
           dest: copy_to_page_crash copy_from_page_crash)

lemma segment_copy_grows: "segment_copy dir page s b bvec voff = Inr (s2, b2) \<Longrightarrow> table_grows s s2"
  by (auto simp: segment_copy_def table_grows_refl split: option.splits if_splits sum.splits
           dest: copy_to_page_grows)

lemma segment_copy_read:
  "segment_copy READ page s b bvec voff = Inl PageOverrun
     \<or> (\<exists>b1. segment_copy READ page s b bvec voff = Inr (s, b1))"
  by (auto simp: segment_copy_def copy_from_page_def split: option.splits)

lemma segment_copy_read_absent: "segment_copy READ None s b bvec voff = Inr (s, zero_segment b bvec)"
  by (simp add: segment_copy_def)

lemma queue_rq_segment_crash:
  assumes "table_ok s" and "queue_rq_segment dir bvec s b pos = Inl e"
  shows "e = PageOverrun"
proof -
  obtain page s1 where "ramjam_get_page s (rq_pgoff pos bvec) (dir = WRITE) = Inr (page, s1)"
    using ramjam_get_page_total [OF assms(1)] by blast
  with assms(2) show ?thesis
    by (auto simp: queue_rq_segment_alt dest: segment_copy_crash)
qed

lemma queue_rq_segment_grows:
  assumes "table_ok s" and "queue_rq_segment dir bvec s b pos = Inr (s2, b2)"
  shows "table_grows s s2"
proof -
  obtain page s1 where "ramjam_get_page s (rq_pgoff pos bvec) (dir = WRITE) = Inr (page, s1)"
    and "table_grows s s1"
    using ramjam_get_page_total [OF assms(1)] by blast
  with assms(2) show ?thesis
    by (auto simp: queue_rq_segment_alt dest: segment_copy_grows table_grows_trans)
qed

lemma submit_bio_segment_crash:
  assumes "table_ok s" and "submit_bio_segment dir bvec s b sector = Inl e"
  shows "e = PageOverrun"
proof -
  obtain page s1 where "ramjam_get_page s (ucast (bio_pg_idx sector)) (dir = WRITE) = Inr (page, s1)"
    using ramjam_get_page_total [OF assms(1)] by blast
  with assms(2) show ?thesis
    by (auto simp: submit_bio_segment_alt [OF assms(1)] dest: segment_copy_crash)
qed

lemma submit_bio_segment_grows:
  assumes "table_ok s" and "submit_bio_segment dir bvec s b sector = Inr (s2, b2)"
  shows "table_grows s s2"
proof -
  obtain page s1 where "ramjam_get_page s (ucast (bio_pg_idx sector)) (dir = WRITE) = Inr (page, s1)"
    and "table_grows s s1"
    using ramjam_get_page_total [OF assms(1)] by blast
  with assms(2) show ?thesis
    by (auto simp: submit_bio_segment_alt [OF assms(1)] dest: segment_copy_grows table_grows_trans)
qed

lemma queue_rq_loop_crash:
  "table_ok s \<Longrightarrow> queue_rq_loop dir segs s b pos = Inl e \<Longrightarrow> e = PageOverrun"
proof (induction segs arbitrary: s b pos)
  case Nil
  then show ?case by simp
next
  case (Cons bvec rest)
  show ?case
  proof (cases "queue_rq_segment dir bvec s b pos")
    case (Inl e1)
    with Cons.prems have "e1 = e" by simp
    with Inl Cons.prems(1) show ?thesis by (auto dest: queue_rq_segment_crash)
  next
    case (Inr r)
    obtain s1 b1 where r: "r = (s1, b1)" by (cases r)
    from Inr r Cons.prems(1) have "table_ok s1"
      by (auto dest: queue_rq_segment_grows table_grows_ok)
    moreover from Inr r Cons.prems(2)
    have "queue_rq_loop dir rest s1 b1 (pos + bv_len bvec) = Inl e" by simp
    ultimately show ?thesis by (rule Cons.IH)
  qed
qed

lemma queue_rq_loop_grows:
  "table_ok s \<Longrightarrow> queue_rq_loop dir segs s b pos = Inr (s2, b2) \<Longrightarrow> table_grows s s2"
proof (induction segs arbitrary: s b pos)
  case Nil
  then show ?case by (simp add: table_grows_refl)
next
  case (Cons bvec rest)
  from Cons.prems(2) obtain s1 b1 where
    st: "queue_rq_segment dir bvec s b pos = Inr (s1, b1)" and
    rest: "queue_rq_loop dir rest s1 b1 (pos + bv_len bvec) = Inr (s2, b2)"
    by (auto split: sum.splits)
  from Cons.prems(1) st have g1: "table_grows s s1" by (rule queue_rq_segment_grows)
  with Cons.prems(1) have "table_ok s1" by (auto dest: table_grows_ok)
  then have "table_grows s1 s2" using rest by (rule Cons.IH)
  with g1 show ?case by (rule table_grows_trans)
qed

lemma submit_bio_loop_crash:
  "table_ok s \<Longrightarrow> submit_bio_loop dir segs s b sector = Inl e \<Longrightarrow> e = PageOverrun"
proof (induction segs arbitrary: s b sector)
  case Nil
  then show ?case by simp
next
  case (Cons bvec rest)
  show ?case
  proof (cases "submit_bio_segment dir bvec s b sector")
    case (Inl e1)
    with Cons.prems have "e1 = e" by simp
    with Inl Cons.prems(1) show ?thesis by (auto dest: submit_bio_segment_crash)
  next
    case (Inr r)
    obtain s1 b1 where r: "r = (s1, b1)" by (cases r)
    from Inr r Cons.prems(1) have "table_ok s1"
      by (auto dest: submit_bio_segment_grows table_grows_ok)
    moreover from Inr r Cons.prems(2)
    have "submit_bio_loop dir rest s1 b1 (sector + ucast (drop_bit SECTOR_SHIFT (bv_len bvec))) = Inl e" by simp
    ultimately show ?thesis by (rule Cons.IH)
  qed
qed

lemma submit_bio_loop_grows:
  "table_ok s \<Longrightarrow> submit_bio_loop dir segs s b sector = Inr (s2, b2) \<Longrightarrow> table_grows s s2"
proof (induction segs arbitrary: s b sector)
  case Nil
  then show ?case by (simp add: table_grows_refl)
next
  case (Cons bvec rest)
  from Cons.prems(2) obtain s1 b1 where
    st: "submit_bio_segment dir bvec s b sector = Inr (s1, b1)" and
    rest: "submit_bio_loop dir rest s1 b1 (sector + ucast (drop_bit SECTOR_SHIFT (bv_len bvec))) = Inr (s2, b2)"
    by (auto split: sum.splits)
  from Cons.prems(1) st have g1: "table_grows s s1" by (rule submit_bio_segment_grows)
  with Cons.prems(1) have "table_ok s1" by (auto dest: table_grows_ok)
  then have "table_grows s1 s2" using rest by (rule Cons.IH)
  with g1 show ?case by (rule table_grows_trans)
qed

lemma ramjam_get_page_probe:
  "table_ok s \<Longrightarrow> \<exists>page. ramjam_get_page s pgoff False = Inr (page, s)"
  by (cases "ucast (ramjam_pages s) \<le> pgoff")
     (simp_all add: ramjam_get_page_out ramjam_get_page_keep)

lemma queue_rq_segment_read_total:
  assumes "table_ok s"
  shows "queue_rq_segment READ bvec s b pos = Inl PageOverrun
     \<or> (\<exists>b1. queue_rq_segment READ bvec s b pos = Inr (s, b1))"
proof -
  obtain page where "ramjam_get_page s (rq_pgoff pos bvec) False = Inr (page, s)"
    using ramjam_get_page_probe [OF assms] by blast
  then show ?thesis
    using segment_copy_read [of page s b bvec] by (simp add: queue_rq_segment_alt)
qed

lemma submit_bio_segment_read_total:
  assumes "table_ok s"
  shows "submit_bio_segment READ bvec s b sector = Inl PageOverrun
     \<or> (\<exists>b1. submit_bio_segment READ bvec s b sector = Inr (s, b1))"
proof -
  obtain page where "ramjam_get_page s (ucast (bio_pg_idx sector)) False = Inr (page, s)"
    using ramjam_get_page_probe [OF assms] by blast
  then show ?thesis
    using segment_copy_read [of page s b bvec] by (simp add: submit_bio_segment_alt [OF assms])
qed

lemma queue_rq_loop_read_total:
  assumes "table_ok s"
  shows "queue_rq_loop READ segs s b pos = Inl PageOverrun
     \<or> (\<exists>b1. queue_rq_loop READ segs s b pos = Inr (s, b1))"
proof (induction segs arbitrary: b pos)
  case Nil
  show ?case by simp
next
  case (Cons bvec rest)
  from queue_rq_segment_read_total [OF assms, of bvec b pos] show ?case
  proof
    assume "queue_rq_segment READ bvec s b pos = Inl PageOverrun"
    then show ?thesis by simp
  next
    assume "\<exists>b1. queue_rq_segment READ bvec s b pos = Inr (s, b1)"
    then obtain b1 where "queue_rq_segment READ bvec s b pos = Inr (s, b1)" ..
    with Cons.IH [of b1 "pos + bv_len bvec"] show ?thesis by simp
  qed
qed

lemma submit_bio_loop_read_total:
  assumes "table_ok s"
  shows "submit_bio_loop READ segs s b sector = Inl PageOverrun
     \<or> (\<exists>b1. submit_bio_loop READ segs s b sector = Inr (s, b1))"
proof (induction segs arbitrary: b sector)
  case Nil
  show ?case by simp
next
  case (Cons bvec rest)
  from submit_bio_segment_read_total [OF assms, of bvec b sector] show ?case
  proof
    assume "submit_bio_segment READ bvec s b sector = Inl PageOverrun"
    then show ?thesis by simp
  next
    assume "\<exists>b1. submit_bio_segment READ bvec s b sector = Inr (s, b1)"
    then obtain b1 where "submit_bio_segment READ bvec s b sector = Inr (s, b1)" ..
    with Cons.IH [of b1 "sector + ucast (drop_bit SECTOR_SHIFT (bv_len bvec))"] show ?thesis by simp
  qed
qed

section \<open>Reads through the block front ends (claim C9)\<close>

text \<open>
  Claim C9 (block-path reads never allocate). On a store whose table has its
  \<open>ramjam_pages\<close> slots, a read transfer through either front end either runs a
  \<open>memcpy\<close> past the end of a page, or completes and leaves the whole driver state
  (table, allocator, page contents, use counts) exactly as it was. The read path calls
  \<open>ramjam_get_page\<close> with \<open>allocate = false\<close> (the bio variant's inline lookup is the
  same function on a well-formed table), that call returns the state untouched, and a
  segment that finds no page is served by zeroing the caller's buffer.
\<close>

theorem block_read_never_allocates:
  assumes "table_ok s"
  shows "(rq_data_dir rq = READ \<longrightarrow>
            ramjam_queue_rq s b rq = Inl PageOverrun
            \<or> (\<exists>b1. ramjam_queue_rq s b rq = Inr (s, b1, BLK_STS_OK)))
       \<and> (bio_data_dir bio = READ \<longrightarrow>
            ramjam_submit_bio s b bio = Inl PageOverrun
            \<or> (\<exists>b1. ramjam_submit_bio s b bio = Inr (s, b1, bi_status bio)))
       \<and> (\<exists>page. ramjam_get_page s pgoff False = Inr (page, s))
       \<and> queue_rq_segment READ bvec s b pos =
            (case ramjam_get_page s (rq_pgoff pos bvec) False of
               Inl e \<Rightarrow> Inl e
             | Inr (page, s1) \<Rightarrow> segment_copy READ page s1 b bvec (unat pos mod PAGE_SIZE))
       \<and> submit_bio_segment READ bvec s b sector =
            (case ramjam_get_page s (ucast (bio_pg_idx sector)) False of
               Inl e \<Rightarrow> Inl e
             | Inr (page, s1) \<Rightarrow> segment_copy READ page s1 b bvec (unat (bv_offset bvec) mod PAGE_SIZE))
       \<and> segment_copy READ None s b bvec voff = Inr (s, zero_segment b bvec)"
proof -
  have 1: "ramjam_queue_rq s b rq = Inl PageOverrun
            \<or> (\<exists>b1. ramjam_queue_rq s b rq = Inr (s, b1, BLK_STS_OK))" if "rq_data_dir rq = READ"
    using queue_rq_loop_read_total [OF assms, of "rq_segments rq" b "ucast (push_bit SECTOR_SHIFT (rq_pos rq))"] that
    by (auto simp: ramjam_queue_rq_def Let_def)
  have 2: "ramjam_submit_bio s b bio = Inl PageOverrun
            \<or> (\<exists>b1. ramjam_submit_bio s b bio = Inr (s, b1, bi_status bio))" if "bio_data_dir bio = READ"
    using submit_bio_loop_read_total [OF assms, of "bi_io_vec bio" b "bi_sector bio"] that
    by (auto simp: ramjam_submit_bio_def)
  have 3: "\<exists>page. ramjam_get_page s pgoff False = Inr (page, s)"
    using assms by (rule ramjam_get_page_probe)
  have 4: "queue_rq_segment READ bvec s b pos =
            (case ramjam_get_page s (rq_pgoff pos bvec) False of
               Inl e \<Rightarrow> Inl e
             | Inr (page, s1) \<Rightarrow> segment_copy READ page s1 b bvec (unat pos mod PAGE_SIZE))"
    by (simp add: queue_rq_segment_alt)
  have 5: "submit_bio_segment READ bvec s b sector =
            (case ramjam_get_page s (ucast (bio_pg_idx sector)) False of
               Inl e \<Rightarrow> Inl e
             | Inr (page, s1) \<Rightarrow> segment_copy READ page s1 b bvec (unat (bv_offset bvec) mod PAGE_SIZE))"
    by (simp add: submit_bio_segment_alt [OF assms])
  from 1 2 3 4 5 show ?thesis by (simp add: segment_copy_read_absent)
qed

theorem block_read_never_allocates_witness:
  "table_ok one_page_store
   \<and> rq_data_dir (mk_request READ 8 [seg 0 0 4096, seg 1 0 4096]) = READ
   \<and> bio_data_dir (mk_bio READ 8 [seg 0 0 4096, seg 1 0 4096]) = READ
   \<and> (\<exists>b1. ramjam_queue_rq one_page_store demo_bufs (mk_request READ 8 [seg 0 0 4096, seg 1 0 4096])
              = Inr (one_page_store, b1, BLK_STS_OK))
   \<and> (\<exists>b1. ramjam_submit_bio one_page_store demo_bufs (mk_bio READ 8 [seg 0 0 4096, seg 1 0 4096])
              = Inr (one_page_store, b1, BLK_STS_OK))"
proof -
  have ok: "table_ok one_page_store"
    by (simp add: one_page_store_def table_ok_def demo_defs)
  have rq: "ramjam_queue_rq one_page_store demo_bufs (mk_request READ 8 [seg 0 0 4096, seg 1 0 4096])
              \<noteq> Inl PageOverrun"
    by (simp add: one_page_store_def demo_defs driver_defs word_le_nat_alt word_less_nat_alt)
  have bio: "ramjam_submit_bio one_page_store demo_bufs (mk_bio READ 8 [seg 0 0 4096, seg 1 0 4096])
              \<noteq> Inl PageOverrun"
    by (simp add: one_page_store_def demo_defs driver_defs word_le_nat_alt word_less_nat_alt)
  from block_read_never_allocates [OF ok, of "mk_request READ 8 [seg 0 0 4096, seg 1 0 4096]" demo_bufs
      "mk_bio READ 8 [seg 0 0 4096, seg 1 0 4096]"] ok rq bio
  show ?thesis by (simp add: mk_request_def mk_bio_def)
qed

section \<open>Bounds of the table (claim C10)\<close>

lemma ramjam_vma_fault_total:
  assumes "table_ok s"
  shows "\<exists>s1 vmf1 r. ramjam_vma_fault s vmf = Inr (s1, vmf1, r) \<and> table_grows s s1"
proof -
  obtain page s1 where g: "ramjam_get_page s (vmf_pgoff vmf) True = Inr (page, s1)"
    and gr: "table_grows s s1"
    using ramjam_get_page_total [OF assms] by blast
  show ?thesis
  proof (cases page)
    case None
    with g gr show ?thesis by (simp add: ramjam_vma_fault_def)
  next
    case (Some p)
    from gr get_page_grows [of s1 p] have "table_grows s (get_page s1 p)"
      by (rule table_grows_trans)
    with g Some show ?thesis by (simp add: ramjam_vma_fault_def)
  qed
qed

lemma ramjam_vm_fault_out:
  "ramjam_pages s \<le> ucast (vmf_pgoff vmf) \<Longrightarrow> ramjam_vm_fault s vmf = Inr (s, vmf, VM_FAULT_SIGBUS)"
  by (simp add: ramjam_vm_fault_def Let_def)

lemma ramjam_vm_fault_present:
  "table_ok s \<Longrightarrow> \<not> ramjam_pages s \<le> ucast (vmf_pgoff vmf) \<Longrightarrow>
     pages s (unat (ucast (vmf_pgoff vmf) :: 32 word)) = Some p \<Longrightarrow>
     ramjam_vm_fault s vmf = Inr (get_page s p, vmf\<lparr>vmf_page := Some p\<rparr>, VM_FAULT_NONE)"
  using in_range_bio [of s "ucast (vmf_pgoff vmf)"]
  by (simp add: ramjam_vm_fault_def Let_def pages_read_def not_le)

lemma ramjam_vm_fault_absent:
  "table_ok s \<Longrightarrow> \<not> ramjam_pages s \<le> ucast (vmf_pgoff vmf) \<Longrightarrow>
     pages s (unat (ucast (vmf_pgoff vmf) :: 32 word)) = None \<Longrightarrow> alloc_page s = (q, s1) \<Longrightarrow>
     ramjam_vm_fault s vmf =
       (case q of
          None \<Rightarrow> Inr (s1, vmf, VM_FAULT_OOM)
        | Some p \<Rightarrow>
            Inr (get_page (s1\<lparr>pages := (pages s1)(unat (ucast (vmf_pgoff vmf) :: 32 word) := Some p)\<rparr>) p,
                 vmf\<lparr>vmf_page := Some p\<rparr>, VM_FAULT_NONE))"
  using in_range_bio [of s "ucast (vmf_pgoff vmf)"] alloc_page_table [of s q s1]
  by (simp add: ramjam_vm_fault_def Let_def pages_read_def pages_write_def not_le split: option.splits)

lemma ramjam_vm_fault_total:
  assumes "table_ok s"
  shows "\<exists>s1 vmf1 r. ramjam_vm_fault s vmf = Inr (s1, vmf1, r) \<and> table_grows s s1"
proof (cases "ramjam_pages s \<le> ucast (vmf_pgoff vmf)")
  case True
  then show ?thesis by (simp add: ramjam_vm_fault_out table_grows_refl)
next
  case inr: False
  let ?i = "unat (ucast (vmf_pgoff vmf) :: 32 word)"
  show ?thesis
  proof (cases "pages s ?i")
    case (Some p)
    from ramjam_vm_fault_present [OF assms inr Some] show ?thesis
      by (simp add: get_page_grows)
  next
    case None
    obtain q s1 where ap: "alloc_page s = (q, s1)" by (cases "alloc_page s")
    have g1: "table_grows s s1" using ap by (rule alloc_page_grows)
    show ?thesis
    proof (cases q)
      case qn: None
      from ramjam_vm_fault_absent [OF assms inr None ap] qn g1 show ?thesis by simp
    next
      case (Some p)
      have "pages s1 ?i = None" "?i < pages_len s1"
        using alloc_page_table [OF ap] None in_range_bio [OF assms, of "ucast (vmf_pgoff vmf)"] inr
        by (simp_all add: not_le)
      then have "table_grows s1 (s1\<lparr>pages := (pages s1)(?i := Some p)\<rparr>)"
        by (rule pages_update_grows)
      with g1 have "table_grows s (s1\<lparr>pages := (pages s1)(?i := Some p)\<rparr>)"
        by (rule table_grows_trans)
      then have "table_grows s (get_page (s1\<lparr>pages := (pages s1)(?i := Some p)\<rparr>) p)"
        using get_page_grows by (rule table_grows_trans)
      with ramjam_vm_fault_absent [OF assms inr None ap] Some show ?thesis by simp
    qed
  qed
qed

lemma ramjam_queue_rq_crash:
  "table_ok s \<Longrightarrow> ramjam_queue_rq s b rq = Inl e \<Longrightarrow> e = PageOverrun"
  by (auto simp: ramjam_queue_rq_def Let_def split: sum.splits dest: queue_rq_loop_crash)

lemma ramjam_queue_rq_grows:
  "table_ok s \<Longrightarrow> ramjam_queue_rq s b rq = Inr (s1, b1, st) \<Longrightarrow> table_grows s s1"
  by (auto simp: ramjam_queue_rq_def Let_def split: sum.splits dest: queue_rq_loop_grows)

lemma ramjam_submit_bio_crash:
  "table_ok s \<Longrightarrow> ramjam_submit_bio s b bio = Inl e \<Longrightarrow> e = PageOverrun"
  by (auto simp: ramjam_submit_bio_def split: sum.splits dest: submit_bio_loop_crash)

lemma ramjam_submit_bio_grows:
  "table_ok s \<Longrightarrow> ramjam_submit_bio s b bio = Inr (s1, b1, st) \<Longrightarrow> table_grows s s1"
  by (auto simp: ramjam_submit_bio_def split: sum.splits dest: submit_bio_loop_grows)

lemma submit_bio_segment_out:
  "ramjam_pages s \<le> bio_pg_idx sector \<Longrightarrow>
     submit_bio_segment dir bvec s b sector = Inr (s, if dir = READ then zero_segment b bvec else b)"
  by (simp add: submit_bio_segment_def bio_pg_idx_def not_less [symmetric])

lemma ramjam_vma_fault_out:
  "ucast (ramjam_pages s) \<le> vmf_pgoff vmf \<Longrightarrow> ramjam_vma_fault s vmf = Inr (s, vmf, VM_FAULT_SIGBUS)"
  by (simp add: ramjam_vma_fault_def ramjam_get_page_out)

text \<open>
  Claim C10 (every access to the page-table array is bounds-checked). For an index at or
  beyond \<open>ramjam_pages\<close>, \<open>ramjam_get_page\<close> returns \<open>NULL\<close>, the bio handler's inline
  lookup finds no page and both fault handlers return \<open>VM_FAULT_SIGBUS\<close>, each with the
  state untouched; this holds whatever the size of the array, so no slot is read or
  written on the way. On a table that has its \<open>ramjam_pages\<close> slots, no operation of
  either variant ever indexes the array outside \<open>[0, ramjam_pages)\<close>. The index is the one
  the handler holds: the bio variant keeps it in a \<open>uint32_t\<close>.
\<close>

theorem pages_index_always_in_bounds:
  "(ucast (ramjam_pages s) \<le> pgoff \<longrightarrow> ramjam_get_page s pgoff allocate = Inr (None, s))
   \<and> (ramjam_pages s \<le> bio_pg_idx sector \<longrightarrow>
        submit_bio_segment dir bvec s b sector = Inr (s, if dir = READ then zero_segment b bvec else b))
   \<and> (ramjam_pages s \<le> ucast (vmf_pgoff vmf) \<longrightarrow> ramjam_vm_fault s vmf = Inr (s, vmf, VM_FAULT_SIGBUS))
   \<and> (ucast (ramjam_pages s) \<le> vmf_pgoff vmf \<longrightarrow> ramjam_vma_fault s vmf = Inr (s, vmf, VM_FAULT_SIGBUS))
   \<and> (table_ok s \<longrightarrow>
        ramjam_get_page s pgoff allocate \<noteq> Inl TableOutOfBounds
        \<and> ramjam_queue_rq s b rq \<noteq> Inl TableOutOfBounds
        \<and> ramjam_submit_bio s b bio \<noteq> Inl TableOutOfBounds
        \<and> ramjam_vma_fault s vmf \<noteq> Inl TableOutOfBounds
        \<and> ramjam_vm_fault s vmf \<noteq> Inl TableOutOfBounds)"
proof -
  have safe: "ramjam_get_page s pgoff allocate \<noteq> Inl TableOutOfBounds
        \<and> ramjam_queue_rq s b rq \<noteq> Inl TableOutOfBounds
        \<and> ramjam_submit_bio s b bio \<noteq> Inl TableOutOfBounds
        \<and> ramjam_vma_fault s vmf \<noteq> Inl TableOutOfBounds
        \<and> ramjam_vm_fault s vmf \<noteq> Inl TableOutOfBounds" if ok: "table_ok s"
  proof -
    have "ramjam_get_page s pgoff allocate \<noteq> Inl TableOutOfBounds"
      using ramjam_get_page_total [OF ok, of pgoff allocate] by auto
    moreover have "ramjam_queue_rq s b rq \<noteq> Inl TableOutOfBounds"
      using ramjam_queue_rq_crash [OF ok, of b rq TableOutOfBounds] by auto
    moreover have "ramjam_submit_bio s b bio \<noteq> Inl TableOutOfBounds"
      using ramjam_submit_bio_crash [OF ok, of b bio TableOutOfBounds] by auto
    moreover have "ramjam_vma_fault s vmf \<noteq> Inl TableOutOfBounds"
      using ramjam_vma_fault_total [OF ok, of vmf] by auto
    moreover have "ramjam_vm_fault s vmf \<noteq> Inl TableOutOfBounds"
      using ramjam_vm_fault_total [OF ok, of vmf] by auto
    ultimately show ?thesis by simp
  qed
  show ?thesis
    using safe
    by (simp add: ramjam_get_page_out submit_bio_segment_out ramjam_vm_fault_out ramjam_vma_fault_out)
qed

theorem pages_index_always_in_bounds_witness:
  "ucast (ramjam_pages (fresh_store 4 [])) \<le> (4 :: 64 word)
   \<and> ramjam_pages (fresh_store 4 []) \<le> bio_pg_idx 32
   \<and> ramjam_pages (fresh_store 4 []) \<le> ucast (vmf_pgoff (mk_fault 4))
   \<and> ucast (ramjam_pages (fresh_store 4 [])) \<le> vmf_pgoff (mk_fault 4)
   \<and> table_ok (fresh_store 4 [])
   \<and> ramjam_get_page (fresh_store 4 []) 4 True = Inr (None, fresh_store 4 [])
   \<and> submit_bio_segment WRITE (seg 0 0 4096) (fresh_store 4 []) demo_bufs 32
       = Inr (fresh_store 4 [], demo_bufs)
   \<and> ramjam_vm_fault (fresh_store 4 []) (mk_fault 4) = Inr (fresh_store 4 [], mk_fault 4, VM_FAULT_SIGBUS)
   \<and> ramjam_vma_fault (fresh_store 4 []) (mk_fault 4) = Inr (fresh_store 4 [], mk_fault 4, VM_FAULT_SIGBUS)
   \<and> ramjam_queue_rq (fresh_store 4 []) demo_bufs (mk_request WRITE 24 [seg 0 0 4096, seg 1 0 4096])
       \<noteq> Inl TableOutOfBounds
   \<and> ramjam_submit_bio (fresh_store 4 []) demo_bufs (mk_bio WRITE 24 [seg 0 0 4096, seg 1 0 4096])
       \<noteq> Inl TableOutOfBounds"
proof -
  have h1: "ucast (ramjam_pages (fresh_store 4 [])) \<le> (4 :: 64 word)"
    by (simp add: demo_defs)
  have h2: "ramjam_pages (fresh_store 4 []) \<le> bio_pg_idx 32"
    by (simp add: demo_defs bio_pg_idx_def PAGE_SHIFT_def SECTOR_SHIFT_def)
  have h3: "ramjam_pages (fresh_store 4 []) \<le> ucast (vmf_pgoff (mk_fault 4))"
    by (simp add: demo_defs)
  have h4: "ucast (ramjam_pages (fresh_store 4 [])) \<le> vmf_pgoff (mk_fault 4)"
    by (simp add: demo_defs)
  have h5: "table_ok (fresh_store 4 [])"
    by (simp add: table_ok_def demo_defs)
  from pages_index_always_in_bounds [of "fresh_store 4 []" 4 True 32 WRITE "seg 0 0 4096" demo_bufs
      "mk_fault 4" "mk_request WRITE 24 [seg 0 0 4096, seg 1 0 4096]"
      "mk_bio WRITE 24 [seg 0 0 4096, seg 1 0 4096]"] h1 h2 h3 h4 h5
  show ?thesis by simp
qed

section \<open>Allocation over sequences of operations (claim C8)\<close>

lemma length_filter_mono:
  "(\<And>x. x \<in> set xs \<Longrightarrow> P x \<Longrightarrow> Q x) \<Longrightarrow> length (filter P xs) \<le> length (filter Q xs)"
  by (induction xs) auto

lemma allocated_count_mono: "table_grows s s1 \<Longrightarrow> allocated_count s \<le> allocated_count s1"
  unfolding allocated_count_def table_grows_def
  by (auto intro!: length_filter_mono)

lemma allocated_count_le: "allocated_count s \<le> pages_len s"
  unfolding allocated_count_def using length_filter_le [of _ "[0..<pages_len s]"] by simp

lemma driver_step_crash: "table_ok s \<Longrightarrow> driver_step x s b = Inl e \<Longrightarrow> e = PageOverrun"
proof (cases x)
  case (Queue_rq rq)
  assume "table_ok s" "driver_step x s b = Inl e"
  with Queue_rq show ?thesis by (auto split: sum.splits dest: ramjam_queue_rq_crash)
next
  case (Submit_bio bio)
  assume "table_ok s" "driver_step x s b = Inl e"
  with Submit_bio show ?thesis by (auto split: sum.splits dest: ramjam_submit_bio_crash)
next
  case (Vma_fault vmf)
  assume "table_ok s" "driver_step x s b = Inl e"
  with Vma_fault ramjam_vma_fault_total [of s vmf] show ?thesis by auto
next
  case (Vm_fault vmf)
  assume "table_ok s" "driver_step x s b = Inl e"
  with Vm_fault ramjam_vm_fault_total [of s vmf] show ?thesis by auto
qed

lemma driver_step_grows: "table_ok s \<Longrightarrow> driver_step x s b = Inr (s1, b1) \<Longrightarrow> table_grows s s1"
proof (cases x)
  case (Queue_rq rq)
  assume "table_ok s" "driver_step x s b = Inr (s1, b1)"
  with Queue_rq show ?thesis by (auto split: sum.splits dest: ramjam_queue_rq_grows)
next
  case (Submit_bio bio)
  assume "table_ok s" "driver_step x s b = Inr (s1, b1)"
  with Submit_bio show ?thesis by (auto split: sum.splits dest: ramjam_submit_bio_grows)
next
  case (Vma_fault vmf)
  assume "table_ok s" "driver_step x s b = Inr (s1, b1)"
  with Vma_fault ramjam_vma_fault_total [of s vmf] show ?thesis by auto
next
  case (Vm_fault vmf)
  assume "table_ok s" "driver_step x s b = Inr (s1, b1)"
  with Vm_fault ramjam_vm_fault_total [of s vmf] show ?thesis by auto
qed

lemma driver_run_crash: "table_ok s \<Longrightarrow> driver_run xs s b = Inl e \<Longrightarrow> e = PageOverrun"
proof (induction xs arbitrary: s b)
  case Nil
  then show ?case by simp
next
  case (Cons x xs)
  show ?case
  proof (cases "driver_step x s b")
    case (Inl e1)
    with Cons.prems show ?thesis by (auto dest: driver_step_crash)
  next
    case (Inr r)
    obtain s1 b1 where r: "r = (s1, b1)" by (cases r)
    from Inr r Cons.prems(1) have "table_ok s1"
      by (auto dest: driver_step_grows table_grows_ok)
    moreover from Inr r Cons.prems(2) have "driver_run xs s1 b1 = Inl e" by simp
    ultimately show ?thesis by (rule Cons.IH)
  qed
qed

lemma driver_run_grows: "table_ok s \<Longrightarrow> driver_run xs s b = Inr (s2, b2) \<Longrightarrow> table_grows s s2"
proof (induction xs arbitrary: s b)
  case Nil
  then show ?case by (simp add: table_grows_refl)
next
  case (Cons x xs)
  from Cons.prems(2) obtain s1 b1 where
    st: "driver_step x s b = Inr (s1, b1)" and rest: "driver_run xs s1 b1 = Inr (s2, b2)"
    by (auto split: sum.splits)
  from Cons.prems(1) st have g1: "table_grows s s1" by (rule driver_step_grows)
  with Cons.prems(1) have "table_ok s1" by (auto dest: table_grows_ok)
  then have "table_grows s1 s2" using rest by (rule Cons.IH)
  with g1 show ?case by (rule table_grows_trans)
qed

text \<open>
  Claim C8 (allocation-state invariant). Over every sequence of block transfers and
  mapping faults, of either variant, that starts on a table with its \<open>ramjam_pages\<close>
  slots: the sequence can only stop early by a \<open>memcpy\<close> past the end of a page, and in
  the state it reaches the table still has its slots, the number of allocated slots has
  not decreased and is at most \<open>ramjam_pages\<close>, every slot that held a page at the
  start holds the same page (a slot is filled at most once and never emptied or
  replaced), and every slot that holds a page at the end held it at the start or lies
  inside the table.
\<close>

theorem allocation_state_invariant:
  assumes "table_ok s"
  shows "(\<forall>e. driver_run xs s b = Inl e \<longrightarrow> e = PageOverrun)
       \<and> (\<forall>s1 b1. driver_run xs s b = Inr (s1, b1) \<longrightarrow>
             table_ok s1
             \<and> ramjam_pages s1 = ramjam_pages s
             \<and> allocated_count s \<le> allocated_count s1
             \<and> allocated_count s1 \<le> unat (ramjam_pages s)
             \<and> (\<forall>i. pages s i \<noteq> None \<longrightarrow> pages s1 i = pages s i)
             \<and> (\<forall>i. pages s1 i \<noteq> None \<longrightarrow> pages s i \<noteq> None \<or> i < unat (ramjam_pages s)))"
proof -
  have crash: "e = PageOverrun" if "driver_run xs s b = Inl e" for e
    using assms that by (rule driver_run_crash)
  have inv: "table_ok s1
             \<and> ramjam_pages s1 = ramjam_pages s
             \<and> allocated_count s \<le> allocated_count s1
             \<and> allocated_count s1 \<le> unat (ramjam_pages s)
             \<and> (\<forall>i. pages s i \<noteq> None \<longrightarrow> pages s1 i = pages s i)
             \<and> (\<forall>i. pages s1 i \<noteq> None \<longrightarrow> pages s i \<noteq> None \<or> i < unat (ramjam_pages s))"
    if run: "driver_run xs s b = Inr (s1, b1)" for s1 b1
  proof -
    from assms run have g: "table_grows s s1" by (rule driver_run_grows)
    from g assms have ok1: "table_ok s1" by (rule table_grows_ok)
    from g have "allocated_count s \<le> allocated_count s1" by (rule allocated_count_mono)
    moreover from g ok1 allocated_count_le [of s1] have "allocated_count s1 \<le> unat (ramjam_pages s)"
      by (simp add: table_ok_def table_grows_def)
    moreover from g have "\<forall>i. pages s i \<noteq> None \<longrightarrow> pages s1 i = pages s i"
      by (simp add: table_grows_def)
    moreover from g assms
    have "\<forall>i. pages s1 i \<noteq> None \<longrightarrow> pages s i \<noteq> None \<or> i < unat (ramjam_pages s)"
      by (simp add: table_grows_def table_ok_def)
    moreover from g have "ramjam_pages s1 = ramjam_pages s" by (simp add: table_grows_def)
    ultimately show ?thesis using ok1 by blast
  qed
  from crash inv show ?thesis by blast
qed

lemma ramjam_init_ok: "table_ok (ramjam_init n m0 f0 plan)"
  by (simp add: table_ok_def ramjam_init_def)

theorem allocation_state_invariant_witness:
  "table_ok one_page_store \<and> pages one_page_store 1 \<noteq> None
   \<and> (\<exists>s1 b1. driver_run demo_ops one_page_store demo_bufs = Inr (s1, b1)
         \<and> table_ok s1
         \<and> allocated_count one_page_store \<le> allocated_count s1
         \<and> allocated_count s1 \<le> unat (ramjam_pages one_page_store)
         \<and> pages s1 1 = pages one_page_store 1
         \<and> pages s1 2 \<noteq> None \<and> pages one_page_store 2 = None
         \<and> 2 < unat (ramjam_pages one_page_store))"
proof -
  have ok: "table_ok one_page_store"
    by (simp add: one_page_store_def table_ok_def demo_defs)
  have p1: "pages one_page_store 1 \<noteq> None" and p2: "pages one_page_store 2 = None"
    by (simp_all add: one_page_store_def)
  have "\<exists>s1 b1. driver_run demo_ops one_page_store demo_bufs = Inr (s1, b1) \<and> pages s1 2 \<noteq> None"
    by (simp add: demo_ops_def one_page_store_def demo_defs driver_defs)
  then obtain s1 b1 where run: "driver_run demo_ops one_page_store demo_bufs = Inr (s1, b1)"
    and q2: "pages s1 2 \<noteq> None"
    by blast
  from allocation_state_invariant [OF ok, of demo_ops demo_bufs] run
  have inv: "table_ok s1"
    "allocated_count one_page_store \<le> allocated_count s1"
    "allocated_count s1 \<le> unat (ramjam_pages one_page_store)"
    "\<forall>i. pages one_page_store i \<noteq> None \<longrightarrow> pages s1 i = pages one_page_store i"
    "\<forall>i. pages s1 i \<noteq> None \<longrightarrow> pages one_page_store i \<noteq> None \<or> i < unat (ramjam_pages one_page_store)"
    by simp_all
  from inv(4) p1 have "pages s1 1 = pages one_page_store 1" by simp
  moreover from inv(5) q2 p2 have "2 < unat (ramjam_pages one_page_store)" by blast
  ultimately show ?thesis using ok p1 p2 run q2 inv(1-3) by blast
qed

section \<open>Transfers beyond the capacity (claim C3)\<close>

lemma queue_rq_segment_out:
  "ucast (ramjam_pages s) \<le> rq_pgoff pos bvec \<Longrightarrow>
     queue_rq_segment dir bvec s b pos = Inr (s, if dir = READ then zero_segment b bvec else b)"
  by (simp add: queue_rq_segment_alt ramjam_get_page_out segment_copy_def)

lemma queue_rq_loop_beyond:
  "rq_beyond s pos segs \<Longrightarrow> queue_rq_loop WRITE segs s b pos = Inr (s, b)"
  by (induction segs arbitrary: pos) (simp_all add: queue_rq_segment_out)

lemma submit_bio_loop_beyond:
  "bio_beyond s sector segs \<Longrightarrow> submit_bio_loop WRITE segs s b sector = Inr (s, b)"
  by (induction segs arbitrary: sector) (simp_all add: submit_bio_segment_out)

lemma ramjam_queue_rq_status: "ramjam_queue_rq s b rq = Inr (s1, b1, st) \<Longrightarrow> st = BLK_STS_OK"
  by (auto simp: ramjam_queue_rq_def Let_def split: sum.splits)

lemma ramjam_submit_bio_status: "ramjam_submit_bio s b bio = Inr (s1, b1, st) \<Longrightarrow> st = bi_status bio"
  by (auto simp: ramjam_submit_bio_def split: sum.splits)

text \<open>
  Claim C3 (boundary rejection), as the code has it. The block front ends never reject a
  transfer: a transfer that completes does so with success (\<open>BLK_STS_OK\<close>; the bio
  variant leaves the bio's status as submitted), whatever its offset and length. The
  capacity check is made per segment, on the page index the front end computes: a
  segment whose index is at or beyond \<open>ramjam_pages\<close> changes nothing in the driver state
  (a write segment is dropped, a read segment is zero-filled), and a write transfer all
  of whose segments lie beyond the table leaves state and buffers as they were.
\<close>

theorem out_of_range_segments_are_skipped:
  "(ucast (ramjam_pages s) \<le> rq_pgoff pos bvec \<longrightarrow>
      queue_rq_segment dir bvec s b pos = Inr (s, if dir = READ then zero_segment b bvec else b))
   \<and> (ramjam_pages s \<le> bio_pg_idx sector \<longrightarrow>
      submit_bio_segment dir bvec s b sector = Inr (s, if dir = READ then zero_segment b bvec else b))
   \<and> (rq_data_dir rq = WRITE
        \<and> rq_beyond s (ucast (push_bit SECTOR_SHIFT (rq_pos rq))) (rq_segments rq) \<longrightarrow>
      ramjam_queue_rq s b rq = Inr (s, b, BLK_STS_OK))
   \<and> (bio_data_dir bio = WRITE \<and> bio_beyond s (bi_sector bio) (bi_io_vec bio) \<longrightarrow>
      ramjam_submit_bio s b bio = Inr (s, b, bi_status bio))
   \<and> (\<forall>s1 b1 st. ramjam_queue_rq s b rq = Inr (s1, b1, st) \<longrightarrow> st = BLK_STS_OK)
   \<and> (\<forall>s1 b1 st. ramjam_submit_bio s b bio = Inr (s1, b1, st) \<longrightarrow> st = bi_status bio)"
proof (intro conjI impI allI)
  assume "ucast (ramjam_pages s) \<le> rq_pgoff pos bvec"
  then show "queue_rq_segment dir bvec s b pos
               = Inr (s, if dir = READ then zero_segment b bvec else b)"
    by (rule queue_rq_segment_out)
next
  assume "ramjam_pages s \<le> bio_pg_idx sector"
  then show "submit_bio_segment dir bvec s b sector
               = Inr (s, if dir = READ then zero_segment b bvec else b)"
    by (rule submit_bio_segment_out)
next
  assume "rq_data_dir rq = WRITE
            \<and> rq_beyond s (ucast (push_bit SECTOR_SHIFT (rq_pos rq))) (rq_segments rq)"
  then show "ramjam_queue_rq s b rq = Inr (s, b, BLK_STS_OK)"
    by (simp add: ramjam_queue_rq_def Let_def queue_rq_loop_beyond)
next
  assume "bio_data_dir bio = WRITE \<and> bio_beyond s (bi_sector bio) (bi_io_vec bio)"
  then show "ramjam_submit_bio s b bio = Inr (s, b, bi_status bio)"
    by (simp add: ramjam_submit_bio_def submit_bio_loop_beyond)
next
  fix s1 b1 st assume "ramjam_queue_rq s b rq = Inr (s1, b1, st)"
  then show "st = BLK_STS_OK" by (rule ramjam_queue_rq_status)
next
  fix s1 b1 st assume "ramjam_submit_bio s b bio = Inr (s1, b1, st)"
  then show "st = bi_status bio" by (rule ramjam_submit_bio_status)
qed

theorem out_of_range_segments_are_skipped_witness:
  "ucast (ramjam_pages (fresh_store 4 [])) \<le> rq_pgoff 16384 (seg 0 0 4096)
   \<and> ramjam_pages (fresh_store 4 []) \<le> bio_pg_idx 32
   \<and> rq_data_dir (mk_request WRITE 32 [seg 0 0 4096]) = WRITE
   \<and> rq_beyond (fresh_store 4 []) (ucast (push_bit SECTOR_SHIFT (rq_pos (mk_request WRITE 32 [seg 0 0 4096]))))
        (rq_segments (mk_request WRITE 32 [seg 0 0 4096]))
   \<and> bio_data_dir (mk_bio WRITE 32 [seg 0 0 4096]) = WRITE
   \<and> bio_beyond (fresh_store 4 []) (bi_sector (mk_bio WRITE 32 [seg 0 0 4096]))
        (bi_io_vec (mk_bio WRITE 32 [seg 0 0 4096]))
   \<and> queue_rq_segment WRITE (seg 0 0 4096) (fresh_store 4 []) demo_bufs 16384
        = Inr (fresh_store 4 [], demo_bufs)
   \<and> submit_bio_segment WRITE (seg 0 0 4096) (fresh_store 4 []) demo_bufs 32
        = Inr (fresh_store 4 [], demo_bufs)
   \<and> ramjam_queue_rq (fresh_store 4 []) demo_bufs (mk_request WRITE 32 [seg 0 0 4096])
        = Inr (fresh_store 4 [], demo_bufs, BLK_STS_OK)
   \<and> ramjam_submit_bio (fresh_store 4 []) demo_bufs (mk_bio WRITE 32 [seg 0 0 4096])
        = Inr (fresh_store 4 [], demo_bufs, BLK_STS_OK)"
proof -
  have h1: "ucast (ramjam_pages (fresh_store 4 [])) \<le> rq_pgoff 16384 (seg 0 0 4096)"
    by (simp add: demo_defs rq_pgoff_def PAGE_SHIFT_def)
  have h2: "ramjam_pages (fresh_store 4 []) \<le> bio_pg_idx 32"
    by (simp add: demo_defs bio_pg_idx_def PAGE_SHIFT_def SECTOR_SHIFT_def)
  have h3: "rq_beyond (fresh_store 4 []) (ucast (push_bit SECTOR_SHIFT (rq_pos (mk_request WRITE 32 [seg 0 0 4096]))))
        (rq_segments (mk_request WRITE 32 [seg 0 0 4096]))"
    by (simp add: demo_defs rq_pgoff_def PAGE_SHIFT_def SECTOR_SHIFT_def)
  have h4: "bio_beyond (fresh_store 4 []) (bi_sector (mk_bio WRITE 32 [seg 0 0 4096]))
        (bi_io_vec (mk_bio WRITE 32 [seg 0 0 4096]))"
    by (simp add: demo_defs bio_pg_idx_def PAGE_SHIFT_def SECTOR_SHIFT_def)
  have h5: "rq_data_dir (mk_request WRITE 32 [seg 0 0 4096]) = WRITE"
    "bio_data_dir (mk_bio WRITE 32 [seg 0 0 4096]) = WRITE"
    "bi_status (mk_bio WRITE 32 [seg 0 0 4096]) = BLK_STS_OK"
    by (simp_all add: mk_request_def mk_bio_def)
  from out_of_range_segments_are_skipped [of "fresh_store 4 []" 16384 "seg 0 0 4096" WRITE demo_bufs 32
      "mk_request WRITE 32 [seg 0 0 4096]" "mk_bio WRITE 32 [seg 0 0 4096]"] h1 h2 h3 h4 h5
  show ?thesis by simp
qed

text \<open>
  The claim as stated fails: on a store of four pages, a write of two pages at sector 24
  (bytes 12288 to 20480, past the capacity of 16384) is not rejected. Both front ends
  complete it with success and allocate page 3 on the way; the same holds for a write
  that starts at the capacity.
\<close>

theorem boundary_rejection_counterexample:
  "unat (24 :: 64 word) * 512 + (4096 + 4096) > unat (ramjam_pages (fresh_store 4 [])) * PAGE_SIZE
   \<and> result_status (ramjam_queue_rq (fresh_store 4 []) demo_bufs
        (mk_request WRITE 24 [seg 0 0 4096, seg 1 0 4096])) = Some BLK_STS_OK
   \<and> result_slot (ramjam_queue_rq (fresh_store 4 []) demo_bufs
        (mk_request WRITE 24 [seg 0 0 4096, seg 1 0 4096])) 3 = Some (Some 0)
   \<and> result_status (ramjam_submit_bio (fresh_store 4 []) demo_bufs
        (mk_bio WRITE 24 [seg 0 0 4096, seg 1 0 4096])) = Some BLK_STS_OK
   \<and> result_slot (ramjam_submit_bio (fresh_store 4 []) demo_bufs
        (mk_bio WRITE 24 [seg 0 0 4096, seg 1 0 4096])) 3 = Some (Some 0)
   \<and> result_status (ramjam_queue_rq (fresh_store 4 []) demo_bufs
        (mk_request WRITE 32 [seg 0 0 512])) = Some BLK_STS_OK"
  by (simp add: result_status_def result_slot_def demo_defs driver_defs)

section \<open>Allocation failure on the block path (claim C5)\<close>

lemma alloc_page_refused:
  "alloc_plan s = False # plan \<Longrightarrow> alloc_page s = (None, s\<lparr>alloc_plan := plan\<rparr>)"
  by (simp add: alloc_page_def)

lemma ramjam_get_page_refused:
  assumes "table_ok s" and "\<not> ucast (ramjam_pages s) \<le> pgoff" and "pages s (unat pgoff) = None"
    and "alloc_plan s = False # plan"
  shows "ramjam_get_page s pgoff True = Inr (None, s\<lparr>alloc_plan := plan\<rparr>)"
  using ramjam_get_page_alloc [OF assms(1-3) alloc_page_refused [OF assms(4)]] assms(3)
  by (simp add: fun_upd_idem)




lemma bio_idx_in_range:
  "bio_pg_idx sector < ramjam_pages s \<Longrightarrow> \<not> ucast (ramjam_pages s) \<le> (ucast (bio_pg_idx sector) :: 64 word)"
  by (simp add: ucast_pages_le)


lemma slot_kept_refl: "slot_kept i s s"
  by (simp add: slot_kept_def)

lemma slot_kept_trans: "slot_kept i s s1 \<Longrightarrow> slot_kept i s1 s2 \<Longrightarrow> slot_kept i s s2"
  by (simp add: slot_kept_def)

lemma alloc_page_cases:
  assumes "alloc_page s = (q, s1)"
  shows "(q = None \<and> s1 = s\<lparr>alloc_plan := tl (alloc_plan s)\<rparr>)
       \<or> (q = Some (next_frame s)
          \<and> s1 = s\<lparr>alloc_plan := tl (alloc_plan s),
                   mem := (mem s)(next_frame s := (\<lambda>_. 0)),
                   refcnt := (refcnt s)(next_frame s := 1),
                   next_frame := Suc (next_frame s)\<rparr>)"
  using assms by (auto simp: alloc_page_def Let_def split: if_splits)

lemma frames_ok_new_slot:
  assumes "frames_ok s" and "pages s k = None"
  shows "frames_ok (s\<lparr>alloc_plan := pl, mem := m, refcnt := r, next_frame := Suc (next_frame s),
                      pages := (pages s)(k := Some (next_frame s))\<rparr>)"
  using assms unfolding frames_ok_def
  by (auto simp: less_Suc_eq split: if_splits)

lemma slot_kept_new_slot:
  assumes "frames_ok s" and "k \<noteq> i"
  shows "slot_kept i s (s\<lparr>alloc_plan := pl, mem := (mem s)(next_frame s := z), refcnt := r,
                          next_frame := Suc (next_frame s),
                          pages := (pages s)(k := Some (next_frame s))\<rparr>)"
  using assms unfolding frames_ok_def slot_kept_def by auto

text \<open>What a lookup leaves of the table and of the other pages.\<close>

lemma ramjam_get_page_frames:
  assumes ok: "table_ok s" and fr: "frames_ok s"
    and g: "ramjam_get_page s pgoff a = Inr (page, s1)"
  shows "frames_ok s1 \<and> (\<forall>p. page = Some p \<longrightarrow> pages s1 (unat pgoff) = Some p)
       \<and> (unat pgoff \<noteq> i \<longrightarrow> slot_kept i s s1)"
proof (cases "ucast (ramjam_pages s) \<le> pgoff")
  case True
  with g fr show ?thesis by (simp add: ramjam_get_page_out slot_kept_refl)
next
  case inr: False
  show ?thesis
  proof (cases "pages s (unat pgoff) \<noteq> None \<or> \<not> a")
    case True
    from ramjam_get_page_keep [OF ok inr True] g fr show ?thesis
      by (auto simp: slot_kept_refl)
  next
    case False
    then have none: "pages s (unat pgoff) = None" and a: "a" by auto
    obtain q s0 where ap: "alloc_page s = (q, s0)" by (cases "alloc_page s")
    from ramjam_get_page_alloc [OF ok inr none ap] g a
    have pg: "page = q" and s1: "s1 = s0\<lparr>pages := (pages s0)(unat pgoff := q)\<rparr>" by auto
    from alloc_page_cases [OF ap] show ?thesis
    proof
      assume "q = None \<and> s0 = s\<lparr>alloc_plan := tl (alloc_plan s)\<rparr>"
      then have "s1 = s\<lparr>alloc_plan := tl (alloc_plan s)\<rparr>"
        using s1 none by (simp add: fun_upd_idem)
      with fr pg \<open>q = None \<and> _\<close> show ?thesis
        by (simp add: frames_ok_def slot_kept_def)
    next
      assume c: "q = Some (next_frame s)
          \<and> s0 = s\<lparr>alloc_plan := tl (alloc_plan s),
                   mem := (mem s)(next_frame s := (\<lambda>_. 0)),
                   refcnt := (refcnt s)(next_frame s := 1),
                   next_frame := Suc (next_frame s)\<rparr>"
      then have s1': "s1 = s\<lparr>alloc_plan := tl (alloc_plan s),
                   mem := (mem s)(next_frame s := (\<lambda>_. 0)),
                   refcnt := (refcnt s)(next_frame s := 1),
                   next_frame := Suc (next_frame s),
                   pages := (pages s)(unat pgoff := Some (next_frame s))\<rparr>"
        using s1 by simp
      have "frames_ok s1" unfolding s1' using fr none by (rule frames_ok_new_slot)
      moreover have "slot_kept i s s1" if "unat pgoff \<noteq> i"
        unfolding s1' using fr that by (rule slot_kept_new_slot)
      moreover have "pages s1 (unat pgoff) = Some (next_frame s)" by (simp add: s1')
      ultimately show ?thesis using pg c by simp
    qed
  qed
qed

lemma segment_copy_frames:
  assumes fr: "frames_ok s1"
    and c: "segment_copy dir page s1 b bvec voff = Inr (s2, b2)"
    and at: "\<forall>p. page = Some p \<longrightarrow> pages s1 k = Some p"
  shows "frames_ok s2 \<and> (k \<noteq> i \<longrightarrow> slot_kept i s1 s2)"
proof (cases "dir = WRITE \<and> page \<noteq> None")
  case False
  with c have "s2 = s1"
    by (auto simp: segment_copy_def copy_from_page_def split: option.splits if_splits sum.splits)
  with fr show ?thesis by (simp add: slot_kept_refl)
next
  case True
  then obtain p where p: "page = Some p" and w: "dir = WRITE" by auto
  from c p w obtain m where s2: "s2 = s1\<lparr>mem := (mem s1)(p := m)\<rparr>"
    by (auto simp: segment_copy_def copy_to_page_def split: if_splits)
  from at p have slot: "pages s1 k = Some p" by simp
  have "frames_ok s2" using fr by (simp add: s2 frames_ok_def)
  moreover have "slot_kept i s1 s2" if "k \<noteq> i"
    using fr slot that unfolding s2 frames_ok_def slot_kept_def by auto
  ultimately show ?thesis by simp
qed

lemma queue_rq_segment_frames:
  assumes ok: "table_ok s" and fr: "frames_ok s"
    and st: "queue_rq_segment dir bvec s b pos = Inr (s2, b2)"
  shows "frames_ok s2 \<and> (unat (rq_pgoff pos bvec) \<noteq> i \<longrightarrow> slot_kept i s s2)"
proof -
  obtain page s1 where g: "ramjam_get_page s (rq_pgoff pos bvec) (dir = WRITE) = Inr (page, s1)"
    using ramjam_get_page_total [OF ok] by blast
  with st have c: "segment_copy dir page s1 b bvec (unat pos mod PAGE_SIZE) = Inr (s2, b2)"
    by (simp add: queue_rq_segment_alt)
  note f1 = ramjam_get_page_frames [OF ok fr g, of i]
  from f1 have fr1: "frames_ok s1"
    and at: "\<forall>p. page = Some p \<longrightarrow> pages s1 (unat (rq_pgoff pos bvec)) = Some p" by simp_all
  note f2 = segment_copy_frames [OF fr1 c at, of i]
  from f1 f2 show ?thesis by (auto intro: slot_kept_trans)
qed

lemma submit_bio_segment_frames:
  assumes ok: "table_ok s" and fr: "frames_ok s"
    and st: "submit_bio_segment dir bvec s b sector = Inr (s2, b2)"
  shows "frames_ok s2 \<and> (unat (bio_pg_idx sector) \<noteq> i \<longrightarrow> slot_kept i s s2)"
proof -
  let ?pg = "ucast (bio_pg_idx sector) :: 64 word"
  have u: "unat ?pg = unat (bio_pg_idx sector)" by (rule unat_pages_ucast)
  obtain page s1 where g: "ramjam_get_page s ?pg (dir = WRITE) = Inr (page, s1)"
    using ramjam_get_page_total [OF ok] by blast
  with st have c: "segment_copy dir page s1 b bvec (unat (bv_offset bvec) mod PAGE_SIZE) = Inr (s2, b2)"
    by (simp add: submit_bio_segment_alt [OF ok])
  note f1 = ramjam_get_page_frames [OF ok fr g, of i]
  from f1 have fr1: "frames_ok s1"
    and at: "\<forall>p. page = Some p \<longrightarrow> pages s1 (unat ?pg) = Some p" by simp_all
  note f2 = segment_copy_frames [OF fr1 c at, of i]
  from f1 f2 show ?thesis by (auto simp: u intro: slot_kept_trans)
qed

lemma queue_rq_loop_frames:
  "table_ok s \<Longrightarrow> frames_ok s \<Longrightarrow> queue_rq_loop dir segs s b pos = Inr (s2, b2) \<Longrightarrow>
     frames_ok s2 \<and> (rq_avoids i pos segs \<longrightarrow> slot_kept i s s2)"
proof (induction segs arbitrary: s b pos)
  case Nil
  then show ?case by (simp add: slot_kept_refl)
next
  case (Cons bvec rest)
  from Cons.prems(3) obtain s1 b1 where
    st: "queue_rq_segment dir bvec s b pos = Inr (s1, b1)" and
    rest: "queue_rq_loop dir rest s1 b1 (pos + bv_len bvec) = Inr (s2, b2)"
    by (auto split: sum.splits)
  from Cons.prems(1) st have ok1: "table_ok s1"
    by (auto dest: queue_rq_segment_grows table_grows_ok)
  note f1 = queue_rq_segment_frames [OF Cons.prems(1,2) st, of i]
  then have fr1: "frames_ok s1" by simp
  note f2 = Cons.IH [OF ok1 fr1 rest]
  from f1 f2 show ?case by (auto intro: slot_kept_trans)
qed

lemma submit_bio_loop_frames:
  "table_ok s \<Longrightarrow> frames_ok s \<Longrightarrow> submit_bio_loop dir segs s b sector = Inr (s2, b2) \<Longrightarrow>
     frames_ok s2 \<and> (bio_avoids i sector segs \<longrightarrow> slot_kept i s s2)"
proof (induction segs arbitrary: s b sector)
  case Nil
  then show ?case by (simp add: slot_kept_refl)
next
  case (Cons bvec rest)
  from Cons.prems(3) obtain s1 b1 where
    st: "submit_bio_segment dir bvec s b sector = Inr (s1, b1)" and
    rest: "submit_bio_loop dir rest s1 b1 (sector + ucast (drop_bit SECTOR_SHIFT (bv_len bvec))) = Inr (s2, b2)"
    by (auto split: sum.splits)
  from Cons.prems(1) st have ok1: "table_ok s1"
    by (auto dest: submit_bio_segment_grows table_grows_ok)
  note f1 = submit_bio_segment_frames [OF Cons.prems(1,2) st, of i]
  then have fr1: "frames_ok s1" by simp
  note f2 = Cons.IH [OF ok1 fr1 rest]
  from f1 f2 show ?case by (auto intro: slot_kept_trans)
qed


lemma frames_ok_init: "frames_ok (ramjam_init n m0 f0 plan)"
  by (simp add: frames_ok_def ramjam_init_def)

lemma frames_ok_get_page: "frames_ok s \<Longrightarrow> frames_ok (get_page s p)"
  by (simp add: frames_ok_def get_page_def)

lemma ramjam_vma_fault_frames:
  assumes ok: "table_ok s" and fr: "frames_ok s"
    and f: "ramjam_vma_fault s vmf = Inr (s2, vmf2, r)"
  shows "frames_ok s2"
proof -
  obtain page s1 where g: "ramjam_get_page s (vmf_pgoff vmf) True = Inr (page, s1)"
    using ramjam_get_page_total [OF ok] by blast
  from ramjam_get_page_frames [OF ok fr g, of 0] have "frames_ok s1" by simp
  with f g show ?thesis
    by (auto simp: ramjam_vma_fault_def frames_ok_get_page split: option.splits)
qed

lemma ramjam_vm_fault_frames:
  assumes ok: "table_ok s" and fr: "frames_ok s"
    and f: "ramjam_vm_fault s vmf = Inr (s2, vmf2, r)"
  shows "frames_ok s2"
proof (cases "ramjam_pages s \<le> ucast (vmf_pgoff vmf)")
  case True
  with f fr show ?thesis by (simp add: ramjam_vm_fault_out)
next
  case inr: False
  let ?i = "unat (ucast (vmf_pgoff vmf) :: 32 word)"
  show ?thesis
  proof (cases "pages s ?i")
    case (Some p)
    from ramjam_vm_fault_present [OF ok inr Some] f fr show ?thesis
      by (auto simp: frames_ok_get_page)
  next
    case None
    obtain q s1 where ap: "alloc_page s = (q, s1)" by (cases "alloc_page s")
    from alloc_page_cases [OF ap] show ?thesis
    proof
      assume c: "q = None \<and> s1 = s\<lparr>alloc_plan := tl (alloc_plan s)\<rparr>"
      with ramjam_vm_fault_absent [OF ok inr None ap] f have "s2 = s\<lparr>alloc_plan := tl (alloc_plan s)\<rparr>"
        by simp
      with fr show ?thesis by (simp add: frames_ok_def)
    next
      assume c: "q = Some (next_frame s)
          \<and> s1 = s\<lparr>alloc_plan := tl (alloc_plan s),
                   mem := (mem s)(next_frame s := (\<lambda>_. 0)),
                   refcnt := (refcnt s)(next_frame s := 1),
                   next_frame := Suc (next_frame s)\<rparr>"
      with ramjam_vm_fault_absent [OF ok inr None ap] f
      have "s2 = get_page (s\<lparr>alloc_plan := tl (alloc_plan s),
                   mem := (mem s)(next_frame s := (\<lambda>_. 0)),
                   refcnt := (refcnt s)(next_frame s := 1),
                   next_frame := Suc (next_frame s),
                   pages := (pages s)(?i := Some (next_frame s))\<rparr>) (next_frame s)"
        by simp
      with frames_ok_new_slot [OF fr None] show ?thesis by (simp add: frames_ok_get_page)
    qed
  qed
qed

lemma driver_step_frames:
  assumes "table_ok s" and "frames_ok s" and "driver_step x s b = Inr (s1, b1)"
  shows "frames_ok s1"
proof (cases x)
  case (Queue_rq rq)
  with assms show ?thesis
    by (auto simp: ramjam_queue_rq_def Let_def split: sum.splits dest: queue_rq_loop_frames)
next
  case (Submit_bio bio)
  with assms show ?thesis
    by (auto simp: ramjam_submit_bio_def split: sum.splits dest: submit_bio_loop_frames)
next
  case (Vma_fault vmf)
  with assms show ?thesis by (auto split: sum.splits dest: ramjam_vma_fault_frames)
next
  case (Vm_fault vmf)
  with assms show ?thesis by (auto split: sum.splits dest: ramjam_vm_fault_frames)
qed

lemma driver_run_frames:
  "table_ok s \<Longrightarrow> frames_ok s \<Longrightarrow> driver_run xs s b = Inr (s2, b2) \<Longrightarrow> frames_ok s2"
proof (induction xs arbitrary: s b)
  case Nil
  then show ?case by simp
next
  case (Cons x xs)
  from Cons.prems(3) obtain s1 b1 where
    st: "driver_step x s b = Inr (s1, b1)" and rest: "driver_run xs s1 b1 = Inr (s2, b2)"
    by (auto split: sum.splits)
  from Cons.prems(1) st have "table_ok s1" by (auto dest: driver_step_grows table_grows_ok)
  moreover from Cons.prems(1,2) st have "frames_ok s1" by (rule driver_step_frames)
  ultimately show ?case using rest by (rule Cons.IH)
qed





text \<open>
  The condition on the remaining segments is needed. On a fresh store of four pages
  whose first allocation fails, a write at sector 0 of two segments of 2048 bytes takes
  both segments to page 0: the first is skipped, the second asks the allocator again
  and is granted the page, so that the transfer ends, with success, with page 0
  allocated.
\<close>

lemma failed_page_allocated_by_later_segment:
  "\<not> rq_avoids 0 (0 + 2048) [seg 0 0 2048]
   \<and> result_status (ramjam_queue_rq (fresh_store 4 [False, True]) demo_bufs
        (mk_request WRITE 0 [seg 0 2048 2048, seg 0 0 2048])) = Some BLK_STS_OK
   \<and> result_slot (ramjam_queue_rq (fresh_store 4 [False, True]) demo_bufs
        (mk_request WRITE 0 [seg 0 2048 2048, seg 0 0 2048])) 0 = Some (Some 0)
   \<and> \<not> bio_avoids 0 (0 + 4) [seg 0 0 2048]
   \<and> result_status (ramjam_submit_bio (fresh_store 4 [False, True]) demo_bufs
        (mk_bio WRITE 0 [seg 0 2048 2048, seg 0 0 2048])) = Some BLK_STS_OK
   \<and> result_slot (ramjam_submit_bio (fresh_store 4 [False, True]) demo_bufs
        (mk_bio WRITE 0 [seg 0 2048 2048, seg 0 0 2048])) 0 = Some (Some 0)"
  by (simp add: result_status_def result_slot_def demo_defs driver_defs rq_pgoff_def bio_pg_idx_def
        word_le_nat_alt word_less_nat_alt)

section \<open>Errors of a mapping fault (claim C6)\<close>

lemma ramjam_vma_fault_refused:
  assumes "table_ok s" and "\<not> ucast (ramjam_pages s) \<le> vmf_pgoff vmf"
    and "pages s (unat (vmf_pgoff vmf)) = None" and "alloc_plan s = False # plan"
  shows "ramjam_vma_fault s vmf = Inr (s\<lparr>alloc_plan := plan\<rparr>, vmf, VM_FAULT_SIGBUS)"
  using ramjam_get_page_refused [OF assms] by (simp add: ramjam_vma_fault_def)

lemma ramjam_vm_fault_refused:
  assumes "table_ok s" and "\<not> ramjam_pages s \<le> ucast (vmf_pgoff vmf)"
    and "pages s (unat (ucast (vmf_pgoff vmf) :: 32 word)) = None" and "alloc_plan s = False # plan"
  shows "ramjam_vm_fault s vmf = Inr (s\<lparr>alloc_plan := plan\<rparr>, vmf, VM_FAULT_OOM)"
  using ramjam_vm_fault_absent [OF assms(1-3) alloc_page_refused [OF assms(4)]] by simp

text \<open>
  Claim C6 (mapping fault error taxonomy), as the code has it. In \<open>blk_bio.c\<close>,
  \<open>ramjam_vm_fault\<close> returns \<open>VM_FAULT_SIGBUS\<close> for a page index (as it holds it, in a
  \<open>uint32_t\<close>) at or beyond \<open>ramjam_pages\<close>, and the distinct \<open>VM_FAULT_OOM\<close> when the
  allocation fails. In \<open>blk_modern.c\<close>, \<open>ramjam_vma_fault\<close> returns \<open>VM_FAULT_SIGBUS\<close> in
  both cases. In every failing case no page is handed out and the table, the page
  contents and the use counts are unchanged (a failed allocation only uses up the
  allocator's refusal), so the store stays usable.
\<close>

theorem fault_error_taxonomy:
  assumes "table_ok s"
  shows "(ramjam_pages s \<le> ucast (vmf_pgoff vmf) \<longrightarrow>
            ramjam_vm_fault s vmf = Inr (s, vmf, VM_FAULT_SIGBUS))
       \<and> (\<not> ramjam_pages s \<le> ucast (vmf_pgoff vmf)
            \<and> pages s (unat (ucast (vmf_pgoff vmf) :: 32 word)) = None
            \<and> alloc_plan s = False # plan \<longrightarrow>
            ramjam_vm_fault s vmf = Inr (s\<lparr>alloc_plan := plan\<rparr>, vmf, VM_FAULT_OOM))
       \<and> (ucast (ramjam_pages s) \<le> vmf_pgoff vmf \<longrightarrow>
            ramjam_vma_fault s vmf = Inr (s, vmf, VM_FAULT_SIGBUS))
       \<and> (\<not> ucast (ramjam_pages s) \<le> vmf_pgoff vmf
            \<and> pages s (unat (vmf_pgoff vmf)) = None
            \<and> alloc_plan s = False # plan \<longrightarrow>
            ramjam_vma_fault s vmf = Inr (s\<lparr>alloc_plan := plan\<rparr>, vmf, VM_FAULT_SIGBUS))"
proof (intro conjI impI)
  assume "ramjam_pages s \<le> ucast (vmf_pgoff vmf)"
  then show "ramjam_vm_fault s vmf = Inr (s, vmf, VM_FAULT_SIGBUS)"
    by (rule ramjam_vm_fault_out)
next
  assume "\<not> ramjam_pages s \<le> ucast (vmf_pgoff vmf)
            \<and> pages s (unat (ucast (vmf_pgoff vmf) :: 32 word)) = None
            \<and> alloc_plan s = False # plan"
  with assms show "ramjam_vm_fault s vmf = Inr (s\<lparr>alloc_plan := plan\<rparr>, vmf, VM_FAULT_OOM)"
    by (simp add: ramjam_vm_fault_refused)
next
  assume "ucast (ramjam_pages s) \<le> vmf_pgoff vmf"
  then show "ramjam_vma_fault s vmf = Inr (s, vmf, VM_FAULT_SIGBUS)"
    by (rule ramjam_vma_fault_out)
next
  assume "\<not> ucast (ramjam_pages s) \<le> vmf_pgoff vmf
            \<and> pages s (unat (vmf_pgoff vmf)) = None
            \<and> alloc_plan s = False # plan"
  with assms show "ramjam_vma_fault s vmf = Inr (s\<lparr>alloc_plan := plan\<rparr>, vmf, VM_FAULT_SIGBUS)"
    by (simp add: ramjam_vma_fault_refused)
qed

theorem fault_error_taxonomy_witness:
  "table_ok refusing_store
   \<and> ramjam_pages refusing_store \<le> ucast (vmf_pgoff (mk_fault 4))
   \<and> ucast (ramjam_pages refusing_store) \<le> vmf_pgoff (mk_fault 4)
   \<and> \<not> ramjam_pages refusing_store \<le> ucast (vmf_pgoff (mk_fault 2))
   \<and> \<not> ucast (ramjam_pages refusing_store) \<le> vmf_pgoff (mk_fault 2)
   \<and> pages refusing_store (unat (ucast (vmf_pgoff (mk_fault 2)) :: 32 word)) = None
   \<and> pages refusing_store (unat (vmf_pgoff (mk_fault 2))) = None
   \<and> alloc_plan refusing_store = False # []
   \<and> ramjam_vm_fault refusing_store (mk_fault 4) = Inr (refusing_store, mk_fault 4, VM_FAULT_SIGBUS)
   \<and> ramjam_vm_fault refusing_store (mk_fault 2)
        = Inr (refusing_store\<lparr>alloc_plan := []\<rparr>, mk_fault 2, VM_FAULT_OOM)
   \<and> ramjam_vma_fault refusing_store (mk_fault 4) = Inr (refusing_store, mk_fault 4, VM_FAULT_SIGBUS)
   \<and> ramjam_vma_fault refusing_store (mk_fault 2)
        = Inr (refusing_store\<lparr>alloc_plan := []\<rparr>, mk_fault 2, VM_FAULT_SIGBUS)"
proof -
  have ok: "table_ok refusing_store"
    by (simp add: refusing_store_def one_page_store_def table_ok_def demo_defs)
  have h: "ramjam_pages refusing_store \<le> ucast (vmf_pgoff (mk_fault 4))"
    "ucast (ramjam_pages refusing_store) \<le> vmf_pgoff (mk_fault 4)"
    "\<not> ramjam_pages refusing_store \<le> ucast (vmf_pgoff (mk_fault 2))"
    "\<not> ucast (ramjam_pages refusing_store) \<le> vmf_pgoff (mk_fault 2)"
    "pages refusing_store (unat (ucast (vmf_pgoff (mk_fault 2)) :: 32 word)) = None"
    "pages refusing_store (unat (vmf_pgoff (mk_fault 2))) = None"
    "alloc_plan refusing_store = False # []"
    by (simp_all add: refusing_store_def one_page_store_def demo_defs)
  from fault_error_taxonomy [OF ok, of "mk_fault 4" "[]"]
    fault_error_taxonomy [OF ok, of "mk_fault 2" "[]"] ok h
  show ?thesis by simp
qed

text \<open>
  The claim as stated fails: in \<open>blk_modern.c\<close> a fault whose allocation fails (page 2 of
  a store of four pages) returns the same \<open>VM_FAULT_SIGBUS\<close> as a fault beyond the table
  (page 4), not a distinct out-of-memory error.
\<close>

theorem fault_error_taxonomy_counterexample:
  "fault_return (ramjam_vma_fault refusing_store (mk_fault 2)) = Some VM_FAULT_SIGBUS
   \<and> fault_return (ramjam_vma_fault refusing_store (mk_fault 4)) = Some VM_FAULT_SIGBUS
   \<and> fault_return (ramjam_vm_fault refusing_store (mk_fault 2)) = Some VM_FAULT_OOM"
  by (simp add: fault_return_def refusing_store_def one_page_store_def demo_defs driver_defs
        word_le_nat_alt word_less_nat_alt)

section \<open>Establishing a mapping (claim C7)\<close>

lemma unat_push_bit_small:
  fixes w :: "'a::len word"
  assumes "unat w * 2 ^ n < 2 ^ LENGTH('a)"
  shows "unat (push_bit n w) = unat w * 2 ^ n"
proof -
  have "unat (push_bit n w) = take_bit LENGTH('a) (push_bit n (unat w))"
    by (rule unsigned_push_bit_eq)
  also have "push_bit n (unat w) = unat w * 2 ^ n"
    by (rule push_bit_eq_mult)
  also have "take_bit LENGTH('a) (unat w * 2 ^ n) = unat w * 2 ^ n"
    using assms by (simp only: take_bit_nat_eq_self)
  finally show ?thesis .
qed

lemma unat_capacity_bytes:
  "unat (push_bit PAGE_SHIFT (ucast (n :: 32 word) :: 64 word)) = unat n * PAGE_SIZE"
proof -
  have "unat n < 2 ^ 32" using unsigned_less [of n] by simp
  then have "unat n * 2 ^ 12 < 2 ^ 32 * 2 ^ 12" by simp
  then have "unat (ucast n :: 64 word) * 2 ^ PAGE_SHIFT < 2 ^ LENGTH(64)"
    by (simp add: unat_pages_ucast PAGE_SHIFT_def)
  then have "unat (push_bit PAGE_SHIFT (ucast n :: 64 word)) = unat (ucast n :: 64 word) * 2 ^ PAGE_SHIFT"
    by (rule unat_push_bit_small)
  then show ?thesis by (simp only: unat_pages_ucast PAGE_SIZE_def)
qed

lemma unat_mapping_end:
  fixes pgoff size :: "64 word"
  assumes "unat pgoff * PAGE_SIZE + unat size < 2 ^ 64"
  shows "unat (push_bit PAGE_SHIFT pgoff + size) = unat pgoff * PAGE_SIZE + unat size"
proof -
  from assms have "unat pgoff * 2 ^ PAGE_SHIFT < 2 ^ LENGTH(64)"
    by (simp add: PAGE_SIZE_def)
  then have sh: "unat (push_bit PAGE_SHIFT pgoff) = unat pgoff * PAGE_SIZE"
    unfolding PAGE_SIZE_def by (rule unat_push_bit_small)
  with assms have "unat (push_bit PAGE_SHIFT pgoff) + unat size < 2 ^ LENGTH(64)" by simp
  then have "unat (push_bit PAGE_SHIFT pgoff + size) = unat (push_bit PAGE_SHIFT pgoff) + unat size"
    by (simp only: unat_add_lem)
  with sh show ?thesis by simp
qed

lemma rramjam_mmap_check:
  assumes "unat (vm_pgoff vma) * PAGE_SIZE + unat (vm_end vma - vm_start vma) < 2 ^ 64"
  shows "(push_bit PAGE_SHIFT (vm_pgoff vma) + (vm_end vma - vm_start vma)
            > push_bit PAGE_SHIFT (ucast (ramjam_pages s) :: 64 word))
       \<longleftrightarrow> unat (vm_pgoff vma) * PAGE_SIZE + unat (vm_end vma - vm_start vma)
            > unat (ramjam_pages s) * PAGE_SIZE"
  by (simp add: word_less_nat_alt unat_capacity_bytes unat_mapping_end [OF assms])

text \<open>
  Claim C7 (establishment-time validation of mappings), as the code has it. In
  \<open>blk_bio.c\<close>, \<open>rramjam_mmap\<close> compares the end of the requested range, page offset times
  page size plus the length, with the capacity in bytes: for a request whose end does
  not wrap around \<open>2 ^ 64\<close> it returns \<open>-EINVAL\<close> and leaves the mapping without a fault
  handler exactly when the range ends beyond the capacity, and accepts it otherwise. In
  \<open>blk_modern.c\<close>, \<open>ramjam_mmap\<close> makes no check and accepts every request; a page
  beyond the table is only refused when it is touched, by \<open>VM_FAULT_SIGBUS\<close> from the
  fault handler. Neither function changes the driver state: nothing is allocated.
\<close>

theorem mapping_validation:
  "(unat (vm_pgoff vma) * PAGE_SIZE + unat (vm_end vma - vm_start vma) < 2 ^ 64 \<longrightarrow>
      rramjam_mmap s vma =
        (if unat (vm_pgoff vma) * PAGE_SIZE + unat (vm_end vma - vm_start vma)
              > unat (ramjam_pages s) * PAGE_SIZE
         then (s, vma, - EINVAL)
         else (s, vma\<lparr>vm_ops := Some ramjam_vm_ops, vm_private_data := True\<rparr>, 0)))
   \<and> fst (rramjam_mmap s vma) = s
   \<and> ramjam_mmap s vma = (s, vma\<lparr>vm_ops := Some ramjam_vm_ops, vm_private_data := True\<rparr>, 0)
   \<and> (ucast (ramjam_pages s) \<le> vmf_pgoff vmf \<longrightarrow>
        ramjam_vma_fault s vmf = Inr (s, vmf, VM_FAULT_SIGBUS))"
proof (intro conjI impI)
  assume a: "unat (vm_pgoff vma) * PAGE_SIZE + unat (vm_end vma - vm_start vma) < 2 ^ 64"
  show "rramjam_mmap s vma =
        (if unat (vm_pgoff vma) * PAGE_SIZE + unat (vm_end vma - vm_start vma)
              > unat (ramjam_pages s) * PAGE_SIZE
         then (s, vma, - EINVAL)
         else (s, vma\<lparr>vm_ops := Some ramjam_vm_ops, vm_private_data := True\<rparr>, 0))"
    unfolding rramjam_mmap_def Let_def rramjam_mmap_check [OF a] by simp
next
  show "fst (rramjam_mmap s vma) = s" by (simp add: rramjam_mmap_def Let_def)
next
  show "ramjam_mmap s vma = (s, vma\<lparr>vm_ops := Some ramjam_vm_ops, vm_private_data := True\<rparr>, 0)"
    by (simp add: ramjam_mmap_def)
next
  assume "ucast (ramjam_pages s) \<le> vmf_pgoff vmf"
  then show "ramjam_vma_fault s vmf = Inr (s, vmf, VM_FAULT_SIGBUS)"
    by (rule ramjam_vma_fault_out)
qed

theorem mapping_validation_witness:
  "unat (vm_pgoff (mk_vma 65536 86016 0)) * PAGE_SIZE
        + unat (vm_end (mk_vma 65536 86016 0) - vm_start (mk_vma 65536 86016 0)) < 2 ^ 64
   \<and> unat (vm_pgoff (mk_vma 65536 86016 0)) * PAGE_SIZE
        + unat (vm_end (mk_vma 65536 86016 0) - vm_start (mk_vma 65536 86016 0))
        > unat (ramjam_pages (fresh_store 4 [])) * PAGE_SIZE
   \<and> ucast (ramjam_pages (fresh_store 4 [])) \<le> vmf_pgoff (mk_fault 4)
   \<and> rramjam_mmap (fresh_store 4 []) (mk_vma 65536 86016 0)
        = (fresh_store 4 [], mk_vma 65536 86016 0, - EINVAL)
   \<and> rramjam_mmap (fresh_store 4 []) (mk_vma 65536 81920 0)
        = (fresh_store 4 [],
           (mk_vma 65536 81920 0)\<lparr>vm_ops := Some ramjam_vm_ops, vm_private_data := True\<rparr>, 0)
   \<and> ramjam_vma_fault (fresh_store 4 []) (mk_fault 4)
        = Inr (fresh_store 4 [], mk_fault 4, VM_FAULT_SIGBUS)"
proof -
  have h1: "unat (vm_pgoff (mk_vma 65536 86016 0)) * PAGE_SIZE
        + unat (vm_end (mk_vma 65536 86016 0) - vm_start (mk_vma 65536 86016 0)) < 2 ^ 64"
    by (simp add: mk_vma_def PAGE_SIZE_def PAGE_SHIFT_def)
  have h2: "unat (vm_pgoff (mk_vma 65536 86016 0)) * PAGE_SIZE
        + unat (vm_end (mk_vma 65536 86016 0) - vm_start (mk_vma 65536 86016 0))
        > unat (ramjam_pages (fresh_store 4 [])) * PAGE_SIZE"
    by (simp add: mk_vma_def PAGE_SIZE_def PAGE_SHIFT_def demo_defs)
  have h3: "unat (vm_pgoff (mk_vma 65536 81920 0)) * PAGE_SIZE
        + unat (vm_end (mk_vma 65536 81920 0) - vm_start (mk_vma 65536 81920 0)) < 2 ^ 64"
    by (simp add: mk_vma_def PAGE_SIZE_def PAGE_SHIFT_def)
  have h4: "\<not> unat (vm_pgoff (mk_vma 65536 81920 0)) * PAGE_SIZE
        + unat (vm_end (mk_vma 65536 81920 0) - vm_start (mk_vma 65536 81920 0))
        > unat (ramjam_pages (fresh_store 4 [])) * PAGE_SIZE"
    by (simp add: mk_vma_def PAGE_SIZE_def PAGE_SHIFT_def demo_defs)
  have h5: "ucast (ramjam_pages (fresh_store 4 [])) \<le> vmf_pgoff (mk_fault 4)"
    by (simp add: demo_defs)
  from mapping_validation [of "mk_vma 65536 86016 0" "fresh_store 4 []" "mk_fault 4"]
    mapping_validation [of "mk_vma 65536 81920 0" "fresh_store 4 []" "mk_fault 4"]
    h1 h2 h3 h4 h5
  show ?thesis by simp
qed

text \<open>
  The claim as stated fails: \<open>ramjam_mmap\<close> of \<open>blk_modern.c\<close> accepts a mapping of five
  pages over a store of four pages; it returns 0 and installs the fault handler.
\<close>

theorem mapping_validation_counterexample:
  "unat (vm_pgoff (mk_vma 65536 86016 0)) * PAGE_SIZE
        + unat (vm_end (mk_vma 65536 86016 0) - vm_start (mk_vma 65536 86016 0))
        > unat (ramjam_pages (fresh_store 4 [])) * PAGE_SIZE
   \<and> snd (snd (ramjam_mmap (fresh_store 4 []) (mk_vma 65536 86016 0))) = 0
   \<and> vm_ops (fst (snd (ramjam_mmap (fresh_store 4 []) (mk_vma 65536 86016 0)))) = Some ramjam_vm_ops"
  by (simp add: ramjam_mmap_def mk_vma_def PAGE_SIZE_def PAGE_SHIFT_def demo_defs)

section \<open>Round trip, zero fill and the two endpoints (claims C1, C2 and C4)\<close>

lemmas observer_defs = result_status_def result_slot_def result_buf_byte_def mapped_byte_def
  rq_then_def bio_then_def rq_then_fault_def

text \<open>
  Claim C1 (round trip) fails on the code. The bio variant places a segment in the page
  at the segment's offset in the caller's buffer, \<open>bv_offset % PAGE_SIZE\<close>, not at the
  position of the transfer: a page written from a buffer that starts mid-page (segments
  at buffer offsets 2048 and 0) and read back into an aligned buffer comes back with its
  halves exchanged, and two half-page segments at buffer offset 0 overwrite each other.
  The request-based variant adds the buffer offset to the position when it picks the
  page: the second of two half-page segments at buffer offset 2048 goes to page 1, and
  the read of page 0 returns zeros for it. It also copies a whole-page segment to a
  position in mid-page, past the end of the page.
\<close>

theorem round_trip_fails:
  "demo_bufs 0 2048 = 17 \<and> demo_bufs 1 0 = 34
   \<and> result_buf_byte (bio_then (fresh_store 4 []) demo_bufs
        (mk_bio WRITE 0 [seg 0 2048 2048, seg 1 0 2048])
        (mk_bio READ 0 [seg 2 0 4096])) 2 0 = Some 34
   \<and> result_buf_byte (bio_then (fresh_store 4 []) demo_bufs
        (mk_bio WRITE 0 [seg 0 2048 2048, seg 1 0 2048])
        (mk_bio READ 0 [seg 2 0 4096])) 2 2048 = Some 17
   \<and> result_buf_byte (bio_then (fresh_store 4 []) demo_bufs
        (mk_bio WRITE 0 [seg 0 0 2048, seg 1 0 2048])
        (mk_bio READ 0 [seg 2 0 2048, seg 3 0 2048])) 2 0 = Some 34
   \<and> demo_bufs 1 2048 = 34
   \<and> result_buf_byte (rq_then (fresh_store 4 []) demo_bufs
        (mk_request WRITE 0 [seg 0 2048 2048, seg 1 2048 2048])
        (mk_request READ 0 [seg 2 0 4096])) 2 2048 = Some 0
   \<and> ramjam_queue_rq (fresh_store 4 []) demo_bufs
        (mk_request WRITE 0 [seg 0 2048 2048, seg 1 0 4096, seg 2 0 2048]) = Inl PageOverrun"
  by (simp add: observer_defs demo_defs driver_defs memcpy_def memzero_page_def
        word_le_nat_alt word_less_nat_alt)

text \<open>
  Claim C2 (zero-fill) fails on the code of \<open>blk_modern.c\<close>. On a store of four pages
  where only page 1 has been written (with the byte 17), a read of page 0 in two
  half-page segments at buffer offset 2048 leaves page 0 unallocated and still returns
  the byte 17 in the second segment: the front end adds the buffer offset to the position
  and reads page 1. On a store of more than \<open>2 ^ 20\<close> pages, the position is cut to 32
  bits: a read of the never-written page \<open>2 ^ 20\<close> returns the contents of page 0.
\<close>

theorem zero_fill_fails:
  "result_slot (rq_then (fresh_store 4 []) demo_bufs
        (mk_request WRITE 8 [seg 0 0 4096])
        (mk_request READ 0 [seg 2 2048 2048, seg 3 2048 2048])) 0 = Some None
   \<and> result_buf_byte (rq_then (fresh_store 4 []) demo_bufs
        (mk_request WRITE 8 [seg 0 0 4096])
        (mk_request READ 0 [seg 2 2048 2048, seg 3 2048 2048])) 3 2048 = Some 17
   \<and> result_slot (rq_then (fresh_store 1048577 []) demo_bufs
        (mk_request WRITE 0 [seg 0 0 4096])
        (mk_request READ 8388608 [seg 2 0 4096])) 1048576 = Some None
   \<and> result_buf_byte (rq_then (fresh_store 1048577 []) demo_bufs
        (mk_request WRITE 0 [seg 0 0 4096])
        (mk_request READ 8388608 [seg 2 0 4096])) 2 0 = Some 17"
  by (simp add: observer_defs demo_defs driver_defs memcpy_def memzero_page_def
        word_le_nat_alt word_less_nat_alt)

text \<open>
  Claim C4 (cross-endpoint consistency) fails on the code of \<open>blk_modern.c\<close>. A write of
  page 0 in two half-page segments at buffer offset 2048 puts the second half, the
  bytes for offsets 2048 to 4095 (the byte 34), into page 1: a fault on page 0, the page
  containing offset 2048, shows 0 there, and a fault on page 1 shows the byte. On a
  store of more than \<open>2 ^ 20\<close> pages, a one-page write at byte offset \<open>2 ^ 32\<close> (page
  \<open>2 ^ 20\<close>, the byte 17) lands in page 0: a fault on page \<open>2 ^ 20\<close> shows 0.
\<close>

theorem cross_endpoint_fails:
  "demo_bufs 1 2048 = 34
   \<and> mapped_byte (rq_then_fault (fresh_store 4 []) demo_bufs
        (mk_request WRITE 0 [seg 0 2048 2048, seg 1 2048 2048]) (mk_fault 0)) 2048 = Some 0
   \<and> mapped_byte (rq_then_fault (fresh_store 4 []) demo_bufs
        (mk_request WRITE 0 [seg 0 2048 2048, seg 1 2048 2048]) (mk_fault 1)) 2048 = Some 34
   \<and> demo_bufs 0 0 = 17
   \<and> mapped_byte (rq_then_fault (fresh_store 1048577 []) demo_bufs
        (mk_request WRITE 8388608 [seg 0 0 4096]) (mk_fault 1048576)) 0 = Some 0
   \<and> mapped_byte (rq_then_fault (fresh_store 1048577 []) demo_bufs
        (mk_request WRITE 8388608 [seg 0 0 4096]) (mk_fault 0)) 0 = Some 17"
  by (simp add: observer_defs demo_defs driver_defs memcpy_def memzero_page_def
        word_le_nat_alt word_less_nat_alt)

section \<open>What holds of one segment\<close>

lemma alloc_page_granted:
  "alloc_granted s \<Longrightarrow>
     alloc_page s =
       (Some (next_frame s),
        s\<lparr>alloc_plan := tl (alloc_plan s),
          mem := (mem s)(next_frame s := (\<lambda>_. 0)),
          refcnt := (refcnt s)(next_frame s := 1),
          next_frame := Suc (next_frame s)\<rparr>)"
  by (simp add: alloc_page_def alloc_granted_def Let_def)

lemma ramjam_get_page_write_some:
  assumes "table_ok s" and "\<not> ucast (ramjam_pages s) \<le> pgoff"
    and "pages s (unat pgoff) \<noteq> None \<or> alloc_granted s"
  shows "\<exists>p s1. ramjam_get_page s pgoff True = Inr (Some p, s1) \<and> pages s1 (unat pgoff) = Some p
            \<and> table_ok s1"
proof (cases "pages s (unat pgoff)")
  case (Some p)
  with ramjam_get_page_keep [OF assms(1,2), of True] assms(1) show ?thesis by simp
next
  case None
  with assms(3) have g: "alloc_granted s" by simp
  from ramjam_get_page_alloc [OF assms(1,2) None alloc_page_granted [OF g]] assms(1)
  show ?thesis by (simp add: table_ok_def)
qed

text \<open>
  What does hold of the round trip and of the two endpoints, for one segment. In
  \<open>blk_modern.c\<close>: when the page the front end computes for the segment is inside the
  table and is allocated or can be, and the copy stays inside the page, the segment's
  bytes are in that page afterwards, at the position's offset in the page; a read
  segment of the same length for which the front end computes the same page gets them
  back, and a fault on that page hands out the frame that holds them.
\<close>

lemma single_segment_round_trip:
  assumes ok: "table_ok s"
    and inr: "\<not> ucast (ramjam_pages s) \<le> rq_pgoff pos w"
    and al: "pages s (unat (rq_pgoff pos w)) \<noteq> None \<or> alloc_granted s"
    and fit: "unat pos mod PAGE_SIZE + unat (bv_len w) \<le> PAGE_SIZE"
    and same: "rq_pgoff pos r = rq_pgoff pos w" "bv_len r = bv_len w"
  shows "\<exists>s1 s2 b2. queue_rq_segment WRITE w s b pos = Inr (s1, b)
            \<and> queue_rq_segment READ r s1 b pos = Inr (s2, b2)
            \<and> (\<forall>i < unat (bv_len w).
                  b2 (bv_page r) (unat (bv_offset r) + i) = b (bv_page w) (unat (bv_offset w) + i))"
proof -
  obtain p s0 where g: "ramjam_get_page s (rq_pgoff pos w) True = Inr (Some p, s0)"
    and slot: "pages s0 (unat (rq_pgoff pos w)) = Some p" and ok0: "table_ok s0"
    using ramjam_get_page_write_some [OF ok inr al] by blast
  define s1 where "s1 = s0\<lparr>mem := (mem s0)(p := memcpy (mem s0 p) (unat pos mod PAGE_SIZE)
      (b (bv_page w)) (unat (bv_offset w)) (unat (bv_len w)))\<rparr>"
  have wr: "queue_rq_segment WRITE w s b pos = Inr (s1, b)"
    using g fit by (simp add: queue_rq_segment_alt segment_copy_def copy_to_page_def s1_def)
  have ok1: "table_ok s1" using ok0 by (simp add: s1_def table_ok_def)
  have "ramjam_pages s0 = ramjam_pages s"
    using ramjam_get_page_total [OF ok, of "rq_pgoff pos w" True] g by (auto simp: table_grows_def)
  then have inr1: "\<not> ucast (ramjam_pages s1) \<le> rq_pgoff pos r"
    using inr same by (simp add: s1_def)
  have slot1: "pages s1 (unat (rq_pgoff pos r)) = Some p" using slot same by (simp add: s1_def)
  have g1: "ramjam_get_page s1 (rq_pgoff pos r) False = Inr (Some p, s1)"
    using ramjam_get_page_keep [OF ok1 inr1, of False] slot1 by simp
  define b2 where "b2 = b(bv_page r := memcpy (b (bv_page r)) (unat (bv_offset r)) (mem s1 p)
      (unat pos mod PAGE_SIZE) (unat (bv_len r)))"
  have rd: "queue_rq_segment READ r s1 b pos = Inr (s1, b2)"
    using g1 fit same by (simp add: queue_rq_segment_alt segment_copy_def copy_from_page_def b2_def)
  have "b2 (bv_page r) (unat (bv_offset r) + i) = b (bv_page w) (unat (bv_offset w) + i)"
    if "i < unat (bv_len w)" for i
    using that same by (simp add: b2_def s1_def memcpy_def)
  with wr rd show ?thesis by blast
qed

lemma single_segment_visible_through_fault:
  assumes ok: "table_ok s"
    and inr: "\<not> ucast (ramjam_pages s) \<le> rq_pgoff pos w"
    and al: "pages s (unat (rq_pgoff pos w)) \<noteq> None \<or> alloc_granted s"
    and fit: "unat pos mod PAGE_SIZE + unat (bv_len w) \<le> PAGE_SIZE"
    and at: "vmf_pgoff vmf = rq_pgoff pos w"
  shows "\<exists>s1 s2 p. queue_rq_segment WRITE w s b pos = Inr (s1, b)
            \<and> ramjam_vma_fault s1 vmf = Inr (s2, vmf\<lparr>vmf_page := Some p\<rparr>, VM_FAULT_NONE)
            \<and> pages s2 (unat (rq_pgoff pos w)) = Some p
            \<and> (\<forall>i < unat (bv_len w).
                  mem s2 p (unat pos mod PAGE_SIZE + i) = b (bv_page w) (unat (bv_offset w) + i))"
proof -
  obtain p s0 where g: "ramjam_get_page s (rq_pgoff pos w) True = Inr (Some p, s0)"
    and slot: "pages s0 (unat (rq_pgoff pos w)) = Some p" and ok0: "table_ok s0"
    using ramjam_get_page_write_some [OF ok inr al] by blast
  define s1 where "s1 = s0\<lparr>mem := (mem s0)(p := memcpy (mem s0 p) (unat pos mod PAGE_SIZE)
      (b (bv_page w)) (unat (bv_offset w)) (unat (bv_len w)))\<rparr>"
  have wr: "queue_rq_segment WRITE w s b pos = Inr (s1, b)"
    using g fit by (simp add: queue_rq_segment_alt segment_copy_def copy_to_page_def s1_def)
  have ok1: "table_ok s1" using ok0 by (simp add: s1_def table_ok_def)
  have "ramjam_pages s0 = ramjam_pages s"
    using ramjam_get_page_total [OF ok, of "rq_pgoff pos w" True] g by (auto simp: table_grows_def)
  then have inr1: "\<not> ucast (ramjam_pages s1) \<le> vmf_pgoff vmf"
    using inr at by (simp add: s1_def)
  have slot1: "pages s1 (unat (vmf_pgoff vmf)) = Some p" using slot at by (simp add: s1_def)
  have g1: "ramjam_get_page s1 (vmf_pgoff vmf) True = Inr (Some p, s1)"
    using ramjam_get_page_keep [OF ok1 inr1, of True] slot1 by simp
  have fl: "ramjam_vma_fault s1 vmf = Inr (get_page s1 p, vmf\<lparr>vmf_page := Some p\<rparr>, VM_FAULT_NONE)"
    using g1 by (simp add: ramjam_vma_fault_def)
  have "pages (get_page s1 p) (unat (rq_pgoff pos w)) = Some p"
    using slot by (simp add: get_page_def s1_def)
  moreover have "mem (get_page s1 p) p (unat pos mod PAGE_SIZE + i) = b (bv_page w) (unat (bv_offset w) + i)"
    if "i < unat (bv_len w)" for i
    using that by (simp add: get_page_def s1_def memcpy_def)
  ultimately show ?thesis using wr fl by blast
qed

text \<open>
  In \<open>blk_bio.c\<close> the same holds when, besides, the read segment has the write segment's
  offset in its buffer page, since that offset is where the bytes are put.
\<close>

lemma single_segment_round_trip_bio:
  assumes ok: "table_ok s"
    and inr: "bio_pg_idx sector < ramjam_pages s"
    and al: "pages s (unat (bio_pg_idx sector)) \<noteq> None \<or> alloc_granted s"
    and fit: "unat (bv_offset w) mod PAGE_SIZE + unat (bv_len w) \<le> PAGE_SIZE"
    and same: "unat (bv_offset r) mod PAGE_SIZE = unat (bv_offset w) mod PAGE_SIZE" "bv_len r = bv_len w"
  shows "\<exists>s1 s2 b2. submit_bio_segment WRITE w s b sector = Inr (s1, b)
            \<and> submit_bio_segment READ r s1 b sector = Inr (s2, b2)
            \<and> (\<forall>i < unat (bv_len w).
                  b2 (bv_page r) (unat (bv_offset r) + i) = b (bv_page w) (unat (bv_offset w) + i))"
proof -
  let ?pg = "ucast (bio_pg_idx sector) :: 64 word"
  have inr': "\<not> ucast (ramjam_pages s) \<le> ?pg" using inr by (rule bio_idx_in_range)
  have al': "pages s (unat ?pg) \<noteq> None \<or> alloc_granted s" using al by (simp add: unat_pages_ucast)
  obtain p s0 where g: "ramjam_get_page s ?pg True = Inr (Some p, s0)"
    and slot: "pages s0 (unat ?pg) = Some p" and ok0: "table_ok s0"
    using ramjam_get_page_write_some [OF ok inr' al'] by blast
  define s1 where "s1 = s0\<lparr>mem := (mem s0)(p := memcpy (mem s0 p) (unat (bv_offset w) mod PAGE_SIZE)
      (b (bv_page w)) (unat (bv_offset w)) (unat (bv_len w)))\<rparr>"
  have wr: "submit_bio_segment WRITE w s b sector = Inr (s1, b)"
    using g fit by (simp add: submit_bio_segment_alt [OF ok] segment_copy_def copy_to_page_def s1_def)
  have ok1: "table_ok s1" using ok0 by (simp add: s1_def table_ok_def)
  have "ramjam_pages s0 = ramjam_pages s"
    using ramjam_get_page_total [OF ok, of ?pg True] g by (auto simp: table_grows_def)
  then have inr1: "\<not> ucast (ramjam_pages s1) \<le> ?pg"
    using inr' by (simp add: s1_def)
  have slot1: "pages s1 (unat ?pg) = Some p" using slot by (simp add: s1_def)
  have g1: "ramjam_get_page s1 ?pg False = Inr (Some p, s1)"
    using ramjam_get_page_keep [OF ok1 inr1, of False] slot1 by simp
  define b2 where "b2 = b(bv_page r := memcpy (b (bv_page r)) (unat (bv_offset r)) (mem s1 p)
      (unat (bv_offset r) mod PAGE_SIZE) (unat (bv_len r)))"
  have rd: "submit_bio_segment READ r s1 b sector = Inr (s1, b2)"
    using g1 fit same
    by (simp add: submit_bio_segment_alt [OF ok1] segment_copy_def copy_from_page_def b2_def)
  have "b2 (bv_page r) (unat (bv_offset r) + i) = b (bv_page w) (unat (bv_offset w) + i)"
    if "i < unat (bv_len w)" for i
    using that same by (simp add: b2_def s1_def memcpy_def)
  with wr rd show ?thesis by blast
qed

end
